theory Spec2Isabelle
  imports Main "HOL-Library.Sublist"
begin

section \<open>Text\<close>

text \<open>
  A Python \<open>str\<close> is a sequence of Unicode code points; it is modelled as a list of
  the code points' numbers. \<open>asc\<close> reads an ASCII literal into that form.
\<close>

type_synonym pystr = "nat list"

definition asc :: "string \<Rightarrow> pystr" where
  "asc s = map of_char s"

text \<open>The characters \<open>str.strip()\<close> removes: those for which \<open>str.isspace\<close> holds.\<close>

definition isspace :: "nat \<Rightarrow> bool" where
  "isspace c \<longleftrightarrow>
     (9 \<le> c \<and> c \<le> 13) \<or> (28 \<le> c \<and> c \<le> 32) \<or> c = 133 \<or> c = 160 \<or> c = 5760 \<or>
     (8192 \<le> c \<and> c \<le> 8202) \<or> c = 8232 \<or> c = 8233 \<or> c = 8239 \<or> c = 8287 \<or> c = 12288"

definition lstrip :: "pystr \<Rightarrow> pystr" where
  "lstrip s = dropWhile isspace s"

definition rstrip :: "pystr \<Rightarrow> pystr" where
  "rstrip s = rev (dropWhile isspace (rev s))"

definition strip :: "pystr \<Rightarrow> pystr" where
  "strip s = rstrip (lstrip s)"

text \<open>
  \<open>s.split(sep)\<close> for a non-empty separator: the pieces between the occurrences of
  \<open>sep\<close>, found from left to right without overlap. (Python raises on an empty
  separator; the program only splits on literals, and the model never splits on \<open>[]\<close>.)
\<close>

function split :: "pystr \<Rightarrow> pystr \<Rightarrow> pystr list" where
  "split sep [] = [[]]"
| "split sep (c # cs) =
     (if sep \<noteq> [] \<and> prefix sep (c # cs)
      then [] # split sep (drop (length sep) (c # cs))
      else (case split sep cs of [] \<Rightarrow> [[c]] | p # ps \<Rightarrow> (c # p) # ps))"
  by pat_completeness auto
termination
  by (relation "measure (\<lambda>(sep, s). length s)") (auto simp: Suc_lessI)

text \<open>\<open>s.split(sep, 1)\<close>: at most one split, at the first occurrence of \<open>sep\<close>.\<close>

fun split1 :: "pystr \<Rightarrow> pystr \<Rightarrow> pystr list" where
  "split1 sep [] = [[]]"
| "split1 sep (c # cs) =
     (if prefix sep (c # cs) then [[], drop (length sep) (c # cs)]
      else (case split1 sep cs of [] \<Rightarrow> [[c]] | p # ps \<Rightarrow> (c # p) # ps))"

section \<open>Numbers\<close>

text \<open>
  The amounts are Python floats. The program uses five operations of them: the builtin
  \<open>sum\<close> of a sequence of them (its start value is the integer 0, which is also its value
  on the empty sequence; how it adds and rounds is the interpreter's matter, and nothing
  is assumed about it), \<open>-\<close>, \<open>==\<close>, the conversion \<open>float(s)\<close> of a text (which raises
  \<open>ValueError\<close>: here \<open>None\<close>) and the text an f-string prints. They are taken as a
  parameter.
\<close>

record 'f float_ops =
  fsum :: "'f list \<Rightarrow> 'f"
  fsub :: "'f \<Rightarrow> 'f \<Rightarrow> 'f"
  feq :: "'f \<Rightarrow> 'f \<Rightarrow> bool"
  of_str :: "pystr \<Rightarrow> 'f option"
  to_str :: "'f \<Rightarrow> pystr"

text \<open>
  An instance for concrete runs: the floats that hold whole numbers below \<open>10\<^sup>1\<^sup>6\<close> in
  magnitude, as integers. On them the sum of a list and the difference are exact (as
  long as the results stay in that range), an f-string prints the
  digits followed by \<open>.0\<close>, and \<open>float\<close> reads such a text back (it also reads texts
  that this instance refuses, such as \<open>1e3\<close>; no run below converts one).
\<close>

fun digits :: "nat \<Rightarrow> pystr" where
  "digits n = (if n < 10 then [48 + n] else digits (n div 10) @ [48 + n mod 10])"

fun read_digits :: "nat \<Rightarrow> pystr \<Rightarrow> nat \<times> pystr" where
  "read_digits acc [] = (acc, [])"
| "read_digits acc (c # cs) =
     (if 48 \<le> c \<and> c \<le> 57 then read_digits (10 * acc + (c - 48)) cs else (acc, c # cs))"

definition read_whole :: "pystr \<Rightarrow> int option" where
  "read_whole s =
     (let t = strip s;
          neg = (t \<noteq> [] \<and> hd t = 45);
          u = (if t \<noteq> [] \<and> (hd t = 45 \<or> hd t = 43) then tl t else t);
          (n, rest) = read_digits 0 u
      in if u = [] \<or> rest = u then None
         else if rest = [] \<or> (hd rest = 46 \<and> (\<forall>c \<in> set (tl rest). c = 48))
              then Some (if neg then - int n else int n)
         else None)"

definition show_whole :: "int \<Rightarrow> pystr" where
  "show_whole i = (if i < 0 then [45] else []) @ digits (nat \<bar>i\<bar>) @ [46, 48]"

definition whole_ops :: "int float_ops" where
  "whole_ops = \<lparr>fsum = sum_list, fsub = (-), feq = (=),
                of_str = read_whole, to_str = show_whole\<rparr>"

section \<open>Records and their file format\<close>

record 'f FinanceRecord =
  date :: pystr
  category :: pystr
  amount :: 'f
  description :: pystr

text \<open>The labels of the four lines of a block, and the two categories that are summed.\<close>

definition key_date :: pystr where
  "key_date = [1044, 1072, 1090, 1072]"

definition key_category :: pystr where
  "key_category = [1050, 1072, 1090, 1077, 1075, 1086, 1088, 1080, 1103]"

definition key_amount :: pystr where
  "key_amount = [1057, 1091, 1084, 1084, 1072]"

definition key_description :: pystr where
  "key_description = [1054, 1087, 1080, 1089, 1072, 1085, 1080, 1077]"

definition income_label :: pystr where
  "income_label = [1044, 1086, 1093, 1086, 1076]"

definition expense_label :: pystr where
  "expense_label = [1056, 1072, 1089, 1093, 1086, 1076]"

text \<open>\<open>": "\<close>, \<open>"---"\<close>, \<open>"---\n"\<close> and \<open>"\n"\<close>.\<close>

definition kv_sep :: pystr where
  "kv_sep = [58, 32]"

definition dashes :: pystr where
  "dashes = [45, 45, 45]"

definition block_sep :: pystr where
  "block_sep = [45, 45, 45, 10]"

definition newline :: pystr where
  "newline = [10]"

datatype exn = IndexError | KeyError pystr | ValueError pystr | UnicodeEncodeError

text \<open>
  The file and the output are written in UTF-8 with strict error handling: every code
  point can be written but the surrogates \<open>U+D800\<close> to \<open>U+DFFF\<close>, and writing or printing
  a text that holds one raises \<open>UnicodeEncodeError\<close>.
\<close>

definition encodable :: "nat \<Rightarrow> bool" where
  "encodable c \<longleftrightarrow> \<not> (55296 \<le> c \<and> c \<le> 57343)"

definition writable :: "pystr \<Rightarrow> bool" where
  "writable s \<longleftrightarrow> list_all encodable s"

text \<open>What \<open>parse_records\<close> prints: one message per line or block it gives up on.\<close>

datatype diag = Unparsable pystr | MissingKey pystr | BadAmount pystr

subsection \<open>Parsing\<close>

text \<open>
  The body of the loop over the lines of a block: \<open>data\<close> is the dictionary. The message
  about a line without separator is printed outside any \<open>try\<close>: when the line cannot be
  printed, the exception leaves the function.
\<close>

definition parse_line ::
  "pystr \<Rightarrow> (pystr \<rightharpoonup> pystr) \<times> diag list \<Rightarrow> exn + (pystr \<rightharpoonup> pystr) \<times> diag list" where
  "parse_line raw st =
     (let line = strip raw in
      if line = dashes \<or> line = [] then Inr st
      else (case split1 kv_sep line of
              [key, val] \<Rightarrow> Inr ((fst st)(key \<mapsto> val), snd st)
            | _ \<Rightarrow> if writable line then Inr (fst st, snd st @ [Unparsable line])
                   else Inl UnicodeEncodeError))"

fun parse_lines ::
  "pystr list \<Rightarrow> (pystr \<rightharpoonup> pystr) \<times> diag list \<Rightarrow> exn + (pystr \<rightharpoonup> pystr) \<times> diag list" where
  "parse_lines [] st = Inr st"
| "parse_lines (l # ls) st =
     (case parse_line l st of Inl x \<Rightarrow> Inl x | Inr st' \<Rightarrow> parse_lines ls st')"

text \<open>
  The constructor call inside \<open>try\<close>: the arguments are evaluated in order, and the first
  missing key or the failed conversion raises.
\<close>

definition build_record :: "'f float_ops \<Rightarrow> (pystr \<rightharpoonup> pystr) \<Rightarrow> exn + 'f FinanceRecord" where
  "build_record ops data =
     (case data key_date of None \<Rightarrow> Inl (KeyError key_date) | Some d \<Rightarrow>
      case data key_category of None \<Rightarrow> Inl (KeyError key_category) | Some c \<Rightarrow>
      case data key_amount of None \<Rightarrow> Inl (KeyError key_amount) | Some a \<Rightarrow>
      case of_str ops a of None \<Rightarrow> Inl (ValueError a) | Some x \<Rightarrow>
      case data key_description of None \<Rightarrow> Inl (KeyError key_description) | Some t \<Rightarrow>
      Inr \<lparr>date = d, category = c, amount = x, description = t\<rparr>)"

text \<open>
  The body of the loop over the blocks: the state is the list built so far and the
  output. The handlers catch \<open>KeyError\<close> and \<open>ValueError\<close>; any other exception leaves
  the function. (The messages of the handlers print the key, or the \<open>repr\<close> of the text
  and of the dictionary, which escapes what cannot be written: they always print.)
\<close>

definition parse_entry ::
  "'f float_ops \<Rightarrow> pystr \<Rightarrow> 'f FinanceRecord list \<times> diag list \<Rightarrow>
   exn + 'f FinanceRecord list \<times> diag list" where
  "parse_entry ops raw st =
     (let entry = strip raw in
      if entry = [] then Inr st
      else
        (case parse_lines (split newline entry) (Map.empty, snd st) of
           Inl x \<Rightarrow> Inl x
         | Inr (data, out) \<Rightarrow>
             (case build_record ops data of
                Inr r \<Rightarrow> Inr (fst st @ [r], out)
              | Inl (KeyError k) \<Rightarrow> Inr (fst st, out @ [MissingKey k])
              | Inl (ValueError a) \<Rightarrow> Inr (fst st, out @ [BadAmount a])
              | Inl IndexError \<Rightarrow> Inl IndexError
              | Inl UnicodeEncodeError \<Rightarrow> Inl UnicodeEncodeError)))"

fun parse_entries ::
  "'f float_ops \<Rightarrow> pystr list \<Rightarrow> 'f FinanceRecord list \<times> diag list \<Rightarrow>
   exn + 'f FinanceRecord list \<times> diag list" where
  "parse_entries ops [] st = Inr st"
| "parse_entries ops (e # es) st =
     (case parse_entry ops e st of Inl x \<Rightarrow> Inl x | Inr st' \<Rightarrow> parse_entries ops es st')"

definition parse_records ::
  "'f float_ops \<Rightarrow> pystr \<Rightarrow> exn + 'f FinanceRecord list \<times> diag list" where
  "parse_records ops content = parse_entries ops (split block_sep (strip content)) ([], [])"

subsection \<open>The text of a file\<close>

text \<open>
  The four lines of a record, and the text of a file that holds a list of records: each
  record's four lines in the order date, category, amount, description, followed by the
  delimiter line.
\<close>

definition block :: "'f float_ops \<Rightarrow> 'f FinanceRecord \<Rightarrow> pystr" where
  "block ops r =
     key_date @ kv_sep @ date r @ newline @
     key_category @ kv_sep @ category r @ newline @
     key_amount @ kv_sep @ to_str ops (amount r) @ newline @
     key_description @ kv_sep @ description r @ newline"

definition serialize :: "'f float_ops \<Rightarrow> 'f FinanceRecord list \<Rightarrow> pystr" where
  "serialize ops rs = concat (map (\<lambda>r. block ops r @ block_sep) rs)"

section \<open>The manager\<close>

text \<open>
  The files are a map from paths to the text they hold; a path outside its domain does
  not exist. Reading in text mode turns \<open>"\r\n"\<close> and \<open>"\r"\<close> into \<open>"\n"\<close>. Opening a file
  for writing empties it; each \<open>write\<close> appends its text, or raises when the text cannot
  be encoded, and the file keeps what was written before. Other failures of the
  environment (a path that cannot be opened) are outside the model.
\<close>

type_synonym files = "pystr \<rightharpoonup> pystr"

fun read_text :: "pystr \<Rightarrow> pystr" where
  "read_text [] = []"
| "read_text (c # cs) =
     (if c = 13 then (case cs of [] \<Rightarrow> [10] | d # ds \<Rightarrow> if d = 10 then 10 # read_text ds else 10 # read_text cs)
      else c # read_text cs)"

record 'f FinanceManager =
  filepath :: pystr
  records :: "'f FinanceRecord list"

definition load_records ::
  "'f float_ops \<Rightarrow> files \<Rightarrow> pystr \<Rightarrow> exn + 'f FinanceRecord list \<times> diag list" where
  "load_records ops fs path =
     (case fs path of None \<Rightarrow> Inr ([], [])
      | Some text \<Rightarrow> parse_records ops (strip (read_text text)))"

text \<open>The constructor of the manager: a new instance on a path, with what loading printed.\<close>

definition init :: "'f float_ops \<Rightarrow> files \<Rightarrow> pystr \<Rightarrow> exn + 'f FinanceManager \<times> diag list" where
  "init ops fs path =
     (case load_records ops fs path of Inl x \<Rightarrow> Inl x
      | Inr (rs, out) \<Rightarrow> Inr (\<lparr>filepath = path, records = rs\<rparr>, out))"

text \<open>The five writes of \<open>save_records\<close> for one record.\<close>

definition record_writes :: "'f float_ops \<Rightarrow> 'f FinanceRecord \<Rightarrow> pystr list" where
  "record_writes ops r =
     [key_date @ kv_sep @ date r @ newline,
      key_category @ kv_sep @ category r @ newline,
      key_amount @ kv_sep @ to_str ops (amount r) @ newline,
      key_description @ kv_sep @ description r @ newline,
      block_sep]"

text \<open>A sequence of writes to an open file, from what the file holds already.\<close>

fun write_all :: "pystr list \<Rightarrow> pystr \<Rightarrow> (exn + unit) \<times> pystr" where
  "write_all [] written = (Inr (), written)"
| "write_all (c # cs) written =
     (if writable c then write_all cs (written @ c) else (Inl UnicodeEncodeError, written))"

definition save_records ::
  "'f float_ops \<Rightarrow> 'f FinanceManager \<Rightarrow> files \<Rightarrow> (exn + unit) \<times> files" where
  "save_records ops m fs =
     (let (res, written) = write_all (concat (map (record_writes ops) (records m))) []
      in (res, fs(filepath m \<mapsto> written)))"

text \<open>
  The three changes: the list in memory changes first, then the file is written; an
  exception of the write leaves the changed list behind.
\<close>

definition add_record ::
  "'f float_ops \<Rightarrow> 'f FinanceRecord \<Rightarrow> files \<times> 'f FinanceManager \<Rightarrow>
   (exn + unit) \<times> files \<times> 'f FinanceManager" where
  "add_record ops r w =
     (let m = (snd w)\<lparr>records := records (snd w) @ [r]\<rparr>;
          (res, fs) = save_records ops m (fst w)
      in (res, fs, m))"

definition edit_record ::
  "'f float_ops \<Rightarrow> int \<Rightarrow> 'f FinanceRecord \<Rightarrow> files \<times> 'f FinanceManager \<Rightarrow>
   (exn + unit) \<times> files \<times> 'f FinanceManager" where
  "edit_record ops index new_record w =
     (if 0 \<le> index \<and> index < int (length (records (snd w)))
      then (let m = (snd w)\<lparr>records := (records (snd w))[nat index := new_record]\<rparr>;
                (res, fs) = save_records ops m (fst w)
            in (res, fs, m))
      else (Inr (), w))"

definition delete_record ::
  "'f float_ops \<Rightarrow> int \<Rightarrow> files \<times> 'f FinanceManager \<Rightarrow> (exn + unit) \<times> files \<times> 'f FinanceManager" where
  "delete_record ops index w =
     (if 0 \<le> index \<and> index < int (length (records (snd w)))
      then (let m = (snd w)\<lparr>records := take (nat index) (records (snd w)) @
                                        drop (Suc (nat index)) (records (snd w))\<rparr>;
                (res, fs) = save_records ops m (fst w)
            in (res, fs, m))
      else (Inl IndexError, w))"

text \<open>The loop of \<open>search_records\<close>, with \<open>result\<close> as it grows.\<close>

fun search_loop ::
  "'f float_ops \<Rightarrow> pystr option \<Rightarrow> pystr option \<Rightarrow> 'f option \<Rightarrow>
   'f FinanceRecord list \<Rightarrow> 'f FinanceRecord list \<Rightarrow> 'f FinanceRecord list" where
  "search_loop ops c d a result [] = result"
| "search_loop ops c d a result (r # rs) =
     search_loop ops c d a
       (if (c = None \<or> Some (category r) = c) \<and> (d = None \<or> Some (date r) = d) \<and>
           (case a of None \<Rightarrow> True | Some x \<Rightarrow> feq ops (amount r) x)
        then result @ [r] else result) rs"

definition search_records ::
  "'f float_ops \<Rightarrow> pystr option \<Rightarrow> pystr option \<Rightarrow> 'f option \<Rightarrow> 'f FinanceManager \<Rightarrow>
   'f FinanceRecord list" where
  "search_records ops c d a m = search_loop ops c d a [] (records m)"

text \<open>Each total is the builtin \<open>sum\<close> of the amounts a generator expression selects.\<close>

definition calculate_finances :: "'f float_ops \<Rightarrow> 'f FinanceManager \<Rightarrow> 'f \<times> 'f \<times> 'f" where
  "calculate_finances ops m =
     (let total_income = fsum ops [amount r. r \<leftarrow> records m, category r = income_label];
          total_expense = fsum ops [amount r. r \<leftarrow> records m, category r = expense_label];
          balance = fsub ops total_income total_expense
      in (balance, total_income, total_expense))"

section \<open>Notions of the specification\<close>

text \<open>The amounts of exactly the records of one category, in the order of the list.\<close>

definition amounts_of :: "pystr \<Rightarrow> 'f FinanceRecord list \<Rightarrow> 'f list" where
  "amounts_of label rs = map amount (filter (\<lambda>r. category r = label) rs)"

text \<open>A record matches every filter that is given.\<close>

definition selected ::
  "'f float_ops \<Rightarrow> pystr option \<Rightarrow> pystr option \<Rightarrow> 'f option \<Rightarrow> 'f FinanceRecord \<Rightarrow> bool" where
  "selected ops c d a r \<longleftrightarrow>
     (\<forall>x. c = Some x \<longrightarrow> category r = x) \<and> (\<forall>x. d = Some x \<longrightarrow> date r = x) \<and>
     (\<forall>x. a = Some x \<longrightarrow> feq ops (amount r) x)"

text \<open>
  A text that a line of the file gives back as it is: not empty, on one line, not ending
  in white space and not ending in \<open>---\<close>.
\<close>

definition keeps :: "pystr \<Rightarrow> bool" where
  "keeps v \<longleftrightarrow> v \<noteq> [] \<and> 10 \<notin> set v \<and> \<not> isspace (last v) \<and> \<not> suffix dashes v"

definition is_key :: "pystr \<Rightarrow> bool" where
  "is_key k \<longleftrightarrow> k = key_date \<or> k = key_category \<or> k = key_amount \<or> k = key_description"

text \<open>The line \<open>save_records\<close> writes for a key and a value, without its line break.\<close>

definition kv_line :: "pystr \<Rightarrow> pystr \<Rightarrow> pystr" where
  "kv_line k v = k @ kv_sep @ v"

text \<open>
  A record whose three texts and whose printed amount are such texts, and whose printed
  amount converts back to a number equal to the amount.
\<close>

definition storable :: "'f float_ops \<Rightarrow> 'f FinanceRecord \<Rightarrow> bool" where
  "storable ops r \<longleftrightarrow>
     keeps (date r) \<and> keeps (category r) \<and> keeps (description r) \<and>
     keeps (to_str ops (amount r)) \<and>
     (case of_str ops (to_str ops (amount r)) of None \<Rightarrow> False | Some x \<Rightarrow> feq ops x (amount r))"

text \<open>The record with its amount printed and converted back.\<close>

definition reread :: "'f float_ops \<Rightarrow> 'f FinanceRecord \<Rightarrow> 'f FinanceRecord" where
  "reread ops r =
     (case of_str ops (to_str ops (amount r)) of None \<Rightarrow> r | Some x \<Rightarrow> r\<lparr>amount := x\<rparr>)"

text \<open>Equal in the three texts, and in the amount as numbers.\<close>

definition same_record :: "'f float_ops \<Rightarrow> 'f FinanceRecord \<Rightarrow> 'f FinanceRecord \<Rightarrow> bool" where
  "same_record ops r' r \<longleftrightarrow>
     date r' = date r \<and> category r' = category r \<and> description r' = description r \<and>
     feq ops (amount r') (amount r)"

text \<open>The dictionary of a block and the output after its lines, from the output before it.\<close>

definition read_block ::
  "pystr \<Rightarrow> diag list \<Rightarrow> exn + (pystr \<rightharpoonup> pystr) \<times> diag list" where
  "read_block e out = parse_lines (split newline (strip e)) (Map.empty, out)"

text \<open>A record all of whose texts can be written to the file.\<close>

definition writable_record :: "'f float_ops \<Rightarrow> 'f FinanceRecord \<Rightarrow> bool" where
  "writable_record ops r \<longleftrightarrow>
     writable (date r) \<and> writable (category r) \<and> writable (to_str ops (amount r)) \<and>
     writable (description r)"

section \<open>Example data\<close>

definition ledger :: "int FinanceRecord list" where
  "ledger =
     [\<lparr>date = asc ''2024-01-01'', category = income_label, amount = 100, description = asc ''salary''\<rparr>,
      \<lparr>date = asc ''2024-01-01'', category = expense_label, amount = 40, description = asc ''food''\<rparr>,
      \<lparr>date = asc ''2024-01-02'', category = asc ''Other'', amount = 999, description = asc ''misc''\<rparr>]"

definition wallet :: "int FinanceManager" where
  "wallet = \<lparr>filepath = asc ''wallet.txt'', records = ledger\<rparr>"

definition disk :: files where
  "disk = [asc ''wallet.txt'' \<mapsto> serialize whole_ops ledger]"

definition rent :: "int FinanceRecord" where
  "rent = \<lparr>date = asc ''2024-02-01'', category = expense_label, amount = 700, description = asc ''rent''\<rparr>"

text \<open>Records that the file does not give back as they are.\<close>

definition padded :: "int FinanceRecord" where
  "padded = \<lparr>date = asc ''2024-03-05'', category = expense_label, amount = 12, description = asc ''lunch ''\<rparr>"

definition two_lined :: "int FinanceRecord" where
  "two_lined = \<lparr>date = asc ''2024-03-05'', category = expense_label, amount = 12, description = asc ''tea'' @ [10] @ asc ''cake''\<rparr>"

definition dashed :: "int FinanceRecord" where
  "dashed = \<lparr>date = asc ''2024-03-05'', category = expense_label, amount = 12, description = asc ''end---''\<rparr>"

text \<open>Two records that differ by a space in front of the description.\<close>

definition indented :: "int FinanceRecord" where
  "indented = \<lparr>date = asc ''2024-03-05'', category = expense_label, amount = 12, description = asc '' lunch''\<rparr>"

definition plain :: "int FinanceRecord" where
  "plain = \<lparr>date = asc ''2024-03-05'', category = expense_label, amount = 12, description = asc ''lunch''\<rparr>"

text \<open>Texts of a file, written line by line.\<close>

definition unlines :: "pystr list \<Rightarrow> pystr" where
  "unlines ls = concat (map (\<lambda>l. l @ newline) ls)"

definition good_block :: pystr where
  "good_block = unlines
     [kv_line key_date (asc ''2024-01-01''), kv_line key_category income_label,
      kv_line key_amount (asc ''100.0''), kv_line key_description (asc ''salary'')]"

definition short_block :: pystr where
  "short_block = unlines
     [kv_line key_date (asc ''2024-01-02''), kv_line key_category expense_label,
      kv_line key_description (asc ''no amount'')]"

definition odd_block :: pystr where
  "odd_block = unlines
     [kv_line key_date (asc ''2024-01-03''), kv_line key_category expense_label,
      kv_line key_amount (asc ''abc''), asc ''hello'', kv_line key_description (asc ''tea'')]"

text \<open>The ledger of the specification's example, with its English labels.\<close>

definition english_ledger :: "int FinanceRecord list" where
  "english_ledger =
     [\<lparr>date = asc ''2024-01-01'', category = asc ''Income'', amount = 100, description = asc ''salary''\<rparr>,
      \<lparr>date = asc ''2024-01-01'', category = asc ''Expense'', amount = 40, description = asc ''food''\<rparr>,
      \<lparr>date = asc ''2024-01-02'', category = asc ''Other'', amount = 999, description = asc ''misc''\<rparr>]"

text \<open>A record whose description ends in the surrogate \<open>U+D800\<close>, and a store that holds it.\<close>

definition tainted :: "int FinanceRecord" where
  "tainted = \<lparr>date = asc ''2024-03-05'', category = expense_label, amount = 12, description = [120, 55296]\<rparr>"

definition tainted_wallet :: "int FinanceManager" where
  "tainted_wallet = \<lparr>filepath = asc ''wallet.txt'', records = [rent, tainted]\<rparr>"

text \<open>A record without description, and one whose category holds a second line.\<close>

definition blank :: "int FinanceRecord" where
  "blank = \<lparr>date = asc ''2024-03-05'', category = expense_label, amount = 12, description = []\<rparr>"

definition spliced :: "int FinanceRecord" where
  "spliced = \<lparr>date = [], category = asc ''x'' @ newline @ kv_line key_date (asc ''2024-03-05''),
     amount = 12, description = asc ''tea''\<rparr>"

section \<open>Facts about the example data\<close>

lemma ledger_labels:
  "asc ''Other'' \<noteq> income_label" "asc ''Other'' \<noteq> expense_label" "income_label \<noteq> expense_label"
  by (simp_all add: asc_def income_label_def expense_label_def)


lemmas text_defs = asc_def strip_def lstrip_def rstrip_def isspace_def key_date_def
  key_category_def key_amount_def key_description_def kv_sep_def newline_def block_sep_def
  dashes_def income_label_def expense_label_def

lemmas number_defs = whole_ops_def show_whole_def read_whole_def

lemmas parse_defs = parse_records_def serialize_def block_def parse_entry_def parse_line_def
  build_record_def writable_def encodable_def

lemma ledger_storable: "list_all (storable whole_ops) ledger"
  by (simp add: ledger_def storable_def keeps_def suffix_to_prefix text_defs number_defs)

lemma rent_storable: "storable whole_ops rent"
  by (simp add: rent_def storable_def keeps_def suffix_to_prefix text_defs number_defs)

lemma reread_whole: "storable whole_ops r \<Longrightarrow> reread whole_ops r = r"
  by (auto simp: storable_def reread_def whole_ops_def split: option.splits)

lemmas block_defs = good_block_def short_block_def odd_block_def unlines_def kv_line_def
  read_block_def parse_line_def writable_def encodable_def

lemma plain_run: "parse_records whole_ops (serialize whole_ops [plain]) = Inr ([plain], [])"
  by (simp add: plain_def parse_defs text_defs number_defs)

section \<open>Stripping and splitting\<close>

lemma lstrip_pad: "\<forall>c \<in> set ws. isspace c \<Longrightarrow> lstrip (ws @ s) = lstrip s"
  by (simp add: lstrip_def dropWhile_append2)

lemma rstrip_pad:
  assumes "\<forall>c \<in> set ws. isspace c"
  shows "rstrip (s @ ws) = rstrip s"
proof -
  have "dropWhile isspace (rev ws @ rev s) = dropWhile isspace (rev s)"
    by (rule dropWhile_append2) (use assms in auto)
  then show ?thesis by (simp add: rstrip_def)
qed

lemma lstrip_append:
  "lstrip (s @ t) = (if \<forall>c \<in> set s. isspace c then lstrip t else lstrip s @ t)"
  by (auto simp: lstrip_def dropWhile_append2 dropWhile_append1)

lemma lstrip_blank: "\<forall>c \<in> set s. isspace c \<Longrightarrow> lstrip s = []"
  by (simp add: lstrip_def)

lemma rstrip_Nil: "rstrip [] = []"
  by (simp add: rstrip_def)

lemma strip_pad:
  assumes "\<forall>c \<in> set ws1. isspace c" and "\<forall>c \<in> set ws2. isspace c"
  shows "strip (ws1 @ s @ ws2) = strip s"
proof (cases "\<forall>c \<in> set s. isspace c")
  case True
  with assms show ?thesis
    by (simp add: strip_def lstrip_pad lstrip_append lstrip_blank)
next
  case False
  with assms show ?thesis
    by (auto simp: strip_def lstrip_pad lstrip_append rstrip_pad)
qed

lemma lstrip_id: "s = [] \<or> \<not> isspace (hd s) \<Longrightarrow> lstrip s = s"
  by (cases s) (auto simp: lstrip_def)

lemma rstrip_id: "s = [] \<or> \<not> isspace (last s) \<Longrightarrow> rstrip s = s"
  by (cases s rule: rev_cases) (auto simp: rstrip_def)

lemma strip_id: "s = [] \<or> \<not> isspace (hd s) \<and> \<not> isspace (last s) \<Longrightarrow> strip s = s"
  by (auto simp: strip_def lstrip_id rstrip_id)

lemma split_not_Nil: "split sep s \<noteq> []"
  by (cases s) (auto split: list.splits)

lemma split_Cons_miss:
  "\<not> prefix sep (c # cs) \<Longrightarrow> split sep (c # cs) = (c # hd (split sep cs)) # tl (split sep cs)"
  using split_not_Nil [of sep cs] by (auto split: list.splits)

lemma split_Cons_hit:
  "sep \<noteq> [] \<Longrightarrow> prefix sep (c # cs) \<Longrightarrow> split sep (c # cs) = [] # split sep (drop (length sep) (c # cs))"
  by simp

lemma split_newline_line:
  "10 \<notin> set l \<Longrightarrow> split newline (l @ 10 # rest) = l # split newline rest"
  by (induction l) (auto simp: newline_def split_not_Nil split: list.splits)

lemma split_newline_last: "10 \<notin> set l \<Longrightarrow> split newline l = [l]"
  by (induction l) (auto simp: newline_def)

lemma block_sep_miss:
  assumes "10 \<notin> set l" and "\<not> suffix dashes l"
  shows "\<not> prefix block_sep (l @ 10 # rest)"
proof
  assume "prefix block_sep (l @ 10 # rest)"
  then obtain z where z: "l @ 10 # rest = [45, 45, 45, 10] @ z"
    by (auto simp: prefix_def block_sep_def)
  show False
  proof (cases "length l < 3")
    case True
    then have "(l @ 10 # rest) ! length l = 45"
      unfolding z by (cases "length l"; simp add: nth_Cons split: nat.splits)
    then show False by (simp add: nth_append)
  next
    case False
    then have "take 3 l = take 3 (l @ 10 # rest)" by simp
    also have "\<dots> = [45, 45, 45]" unfolding z by simp
    finally have t: "take 3 l = [45, 45, 45]" .
    show False
    proof (cases "length l = 3")
      case True
      with t have "l = dashes" by (simp add: dashes_def)
      with assms(2) show False by simp
    next
      case False
      with \<open>\<not> length l < 3\<close> have "3 < length l" by simp
      then have "l ! 3 = (l @ 10 # rest) ! 3" by (simp add: nth_append)
      also have "\<dots> = 10" unfolding z by simp
      finally have "10 \<in> set l" using \<open>3 < length l\<close> by (metis nth_mem)
      with assms(1) show False by simp
    qed
  qed
qed

lemma split_block_line:
  assumes "10 \<notin> set l" and "\<not> suffix dashes l"
  shows "split block_sep (l @ 10 # rest) =
         (l @ 10 # hd (split block_sep rest)) # tl (split block_sep rest)"
  using assms
proof (induction l)
  case Nil
  have "\<not> prefix block_sep (10 # rest)" by (simp add: block_sep_def)
  then show ?case using split_Cons_miss [of block_sep 10 rest] by simp
next
  case (Cons c l)
  from Cons.prems have l: "10 \<notin> set l" "\<not> suffix dashes l"
    by (auto simp: suffix_Cons)
  have "\<not> prefix block_sep ((c # l) @ 10 # rest)"
    using Cons.prems by (rule block_sep_miss)
  then have "split block_sep ((c # l) @ 10 # rest) =
             (c # hd (split block_sep (l @ 10 # rest))) # tl (split block_sep (l @ 10 # rest))"
    using split_Cons_miss [of block_sep c "l @ 10 # rest"] by simp
  then show ?case by (simp add: Cons.IH [OF l])
qed

section \<open>Lines and blocks\<close>

lemma suffix_past:
  assumes "c \<notin> set xs" and "suffix xs (ps @ c # v)"
  shows "suffix xs v"
proof -
  from assms(2) have "prefix (rev xs) (rev v @ c # rev ps)"
    by (simp add: suffix_to_prefix)
  then have "prefix (rev xs) (rev v) \<or> (\<exists>us. rev xs = rev v @ us \<and> prefix us (c # rev ps))"
    by (simp add: prefix_append)
  then show ?thesis
  proof
    assume "prefix (rev xs) (rev v)"
    then show ?thesis by (simp add: suffix_to_prefix)
  next
    assume "\<exists>us. rev xs = rev v @ us \<and> prefix us (c # rev ps)"
    then obtain us where us: "rev xs = rev v @ us" "prefix us (c # rev ps)" by blast
    show ?thesis
    proof (cases us)
      case Nil
      with us(1) have "xs = v" by simp
      then show ?thesis by simp
    next
      case (Cons u us')
      with us(2) have "u = c" by simp
      with Cons us(1) have "c \<in> set (rev xs)" by simp
      with assms(1) show ?thesis by simp
    qed
  qed
qed

lemma key_facts:
  assumes "is_key k"
  shows "k \<noteq> []" "\<not> isspace (hd k)" "10 \<notin> set k" "split1 kv_sep (k @ kv_sep @ v) = [k, v]"
    "hd k \<noteq> 45"
  using assms
  by (auto simp: is_key_def key_date_def key_category_def key_amount_def key_description_def
      isspace_def kv_sep_def)

lemma kv_line_facts:
  assumes "is_key k" and "keeps v"
  shows "10 \<notin> set (kv_line k v)" "\<not> suffix dashes (kv_line k v)"
    "strip (kv_line k v) = kv_line k v" "kv_line k v \<noteq> dashes" "kv_line k v \<noteq> []"
    "\<not> isspace (hd (kv_line k v))" "\<not> isspace (last (kv_line k v))"
    "split1 kv_sep (kv_line k v) = [k, v]"
proof -
  show "split1 kv_sep (kv_line k v) = [k, v]"
    using key_facts(4) [OF assms(1)] by (simp add: kv_line_def)
  from assms(2) have v: "v \<noteq> []" "10 \<notin> set v" "\<not> isspace (last v)" "\<not> suffix dashes v"
    by (simp_all add: keeps_def)
  show "10 \<notin> set (kv_line k v)"
    using key_facts(3) [OF assms(1)] v(2) by (simp add: kv_line_def kv_sep_def)
  have "kv_line k v = (k @ [58]) @ 32 # v" by (simp add: kv_line_def kv_sep_def)
  moreover have "32 \<notin> set dashes" by (simp add: dashes_def)
  ultimately show "\<not> suffix dashes (kv_line k v)"
    using suffix_past [of 32 dashes "k @ [58]" v] v(4) by auto
  show hd: "\<not> isspace (hd (kv_line k v))"
    using key_facts(1,2) [OF assms(1)] by (simp add: kv_line_def)
  show last: "\<not> isspace (last (kv_line k v))"
    using v(1,3) by (simp add: kv_line_def kv_sep_def)
  show "strip (kv_line k v) = kv_line k v"
    using hd last by (simp add: strip_id)
  show "kv_line k v \<noteq> dashes"
    using key_facts(1,5) [OF assms(1)] by (cases k) (auto simp: kv_line_def dashes_def)
  show "kv_line k v \<noteq> []"
    using key_facts(1) [OF assms(1)] by (simp add: kv_line_def)
qed

lemma parse_line_kv:
  assumes "is_key k" and "keeps v"
  shows "parse_line (kv_line k v) st = Inr ((fst st)(k \<mapsto> v), snd st)"
  by (simp add: parse_line_def Let_def kv_line_facts(3,4,5,8) [OF assms])

lemma parse_line_dashes: "parse_line dashes st = Inr st"
  by (simp add: parse_line_def strip_id dashes_def isspace_def)

lemma is_key_simps:
  "is_key key_date" "is_key key_category" "is_key key_amount" "is_key key_description"
  by (simp_all add: is_key_def)

lemma keys_distinct:
  "key_date \<noteq> key_category" "key_date \<noteq> key_amount" "key_date \<noteq> key_description"
  "key_category \<noteq> key_amount" "key_category \<noteq> key_description" "key_amount \<noteq> key_description"
  by (simp_all add: key_date_def key_category_def key_amount_def key_description_def)

lemma block_lines:
  "block ops r =
     kv_line key_date (date r) @ 10 #
     kv_line key_category (category r) @ 10 #
     kv_line key_amount (to_str ops (amount r)) @ 10 #
     kv_line key_description (description r) @ [10]"
  by (simp add: block_def kv_line_def newline_def)

lemma build_record_full:
  assumes "of_str ops a = Some x"
  shows "build_record ops [key_date \<mapsto> d, key_category \<mapsto> c, key_amount \<mapsto> a, key_description \<mapsto> t]
         = Inr \<lparr>date = d, category = c, amount = x, description = t\<rparr>"
  using assms keys_distinct by (simp add: build_record_def)

lemma same_record_reread: "storable ops r \<Longrightarrow> same_record ops (reread ops r) r"
  by (auto simp: storable_def same_record_def reread_def split: option.splits)

lemma parse_entry_block:
  assumes "storable ops r" and "tail = [] \<or> tail = dashes"
  shows "parse_entry ops (block ops r @ tail) st = Inr (fst st @ [reread ops r], snd st)"
proof -
  define l1 where "l1 = kv_line key_date (date r)"
  define l2 where "l2 = kv_line key_category (category r)"
  define l3 where "l3 = kv_line key_amount (to_str ops (amount r))"
  define l4 where "l4 = kv_line key_description (description r)"
  from assms(1) have k: "keeps (date r)" "keeps (category r)" "keeps (to_str ops (amount r))"
    "keeps (description r)"
    by (simp_all add: storable_def)
  from assms(1) obtain x where x: "of_str ops (to_str ops (amount r)) = Some x"
    by (auto simp: storable_def split: option.splits)
  note f1 = kv_line_facts [OF is_key_simps(1) k(1), folded l1_def]
  note f2 = kv_line_facts [OF is_key_simps(2) k(2), folded l2_def]
  note f3 = kv_line_facts [OF is_key_simps(3) k(3), folded l3_def]
  note f4 = kv_line_facts [OF is_key_simps(4) k(4), folded l4_def]
  define body where "body = l1 @ 10 # l2 @ 10 # l3 @ 10 # l4"
  have blk: "block ops r = body @ [10]"
    by (simp add: block_lines body_def l1_def l2_def l3_def l4_def)
  have body_ends: "body \<noteq> []" "\<not> isspace (hd body)" "\<not> isspace (last body)"
    using f1(5,6) f4(5,7) by (simp_all add: body_def)
  have lines: "split newline (body @ rest) = [l1, l2, l3] @ split newline (l4 @ rest)" for rest
    using f1(1) f2(1) f3(1) by (simp add: body_def split_newline_line)
  have run4: "parse_lines [l1, l2, l3, l4] (Map.empty, out) =
        Inr ([key_date \<mapsto> date r, key_category \<mapsto> category r,
              key_amount \<mapsto> to_str ops (amount r), key_description \<mapsto> description r], out)"
    for out
    unfolding l1_def l2_def l3_def l4_def
    by (simp add: parse_line_kv is_key_simps k)
  have built: "build_record ops [key_date \<mapsto> date r, key_category \<mapsto> category r,
          key_amount \<mapsto> to_str ops (amount r), key_description \<mapsto> description r]
        = Inr (reread ops r)"
    using x by (simp add: build_record_full reread_def)
  from assms(2) show ?thesis
  proof
    assume t: "tail = []"
    have "strip (block ops r @ tail) = body"
      using strip_pad [of "[]" "[10]" body] body_ends
      by (simp add: t blk strip_id isspace_def)
    moreover have "split newline body = [l1, l2, l3, l4]"
      using lines [of "[]"] f4(1) by (simp add: split_newline_last)
    ultimately show ?thesis
      using body_ends(1) by (simp add: parse_entry_def Let_def run4 built del: parse_lines.simps)
  next
    assume t: "tail = dashes"
    have "strip (block ops r @ tail) = body @ 10 # dashes"
      using body_ends by (simp add: t blk strip_id dashes_def isspace_def)
    moreover have "split newline (body @ 10 # dashes) = [l1, l2, l3, l4, dashes]"
    proof -
      have "10 \<notin> set dashes" by (simp add: dashes_def)
      then have "split newline (l4 @ 10 # dashes) = [l4, dashes]"
        using f4(1) by (simp add: split_newline_line split_newline_last)
      then show ?thesis using lines [of "10 # dashes"] by simp
    qed
    moreover have "parse_lines [l1, l2, l3, l4, dashes] (Map.empty, out) =
        parse_lines [l1, l2, l3, l4] (Map.empty, out)" for out
      unfolding l1_def l2_def l3_def l4_def
      by (simp add: parse_line_kv is_key_simps k parse_line_dashes)
    ultimately show ?thesis
      by (simp add: parse_entry_def Let_def run4 built del: parse_lines.simps)
  qed
qed

lemma split_block_sep_hit: "split block_sep (block_sep @ rest) = [] # split block_sep rest"
  by (simp add: block_sep_def)

lemma split_block:
  assumes "storable ops r"
  shows "split block_sep (block ops r @ rest) =
         (block ops r @ hd (split block_sep rest)) # tl (split block_sep rest)"
proof -
  from assms have k: "keeps (date r)" "keeps (category r)" "keeps (to_str ops (amount r))"
    "keeps (description r)"
    by (simp_all add: storable_def)
  note f1 = kv_line_facts(1,2) [OF is_key_simps(1) k(1)]
  note f2 = kv_line_facts(1,2) [OF is_key_simps(2) k(2)]
  note f3 = kv_line_facts(1,2) [OF is_key_simps(3) k(3)]
  note f4 = kv_line_facts(1,2) [OF is_key_simps(4) k(4)]
  show ?thesis
    by (simp add: block_lines split_block_line [OF f1] split_block_line [OF f2]
        split_block_line [OF f3] split_block_line [OF f4])
qed

lemma serialize_Cons: "serialize ops (r # rs) = block ops r @ block_sep @ serialize ops rs"
  by (simp add: serialize_def)

lemma serialize_snoc: "serialize ops (rs @ [r]) = serialize ops rs @ block ops r @ dashes @ [10]"
  by (simp add: serialize_def block_sep_def dashes_def)

lemma split_serialize:
  assumes "\<forall>r \<in> set rs. storable ops r"
  shows "split block_sep (serialize ops rs @ rest) = map (block ops) rs @ split block_sep rest"
  using assms
proof (induction rs)
  case Nil
  show ?case by (simp add: serialize_def)
next
  case (Cons r rs)
  then have r: "storable ops r" and IH: "split block_sep (serialize ops rs @ rest) =
      map (block ops) rs @ split block_sep rest"
    by simp_all
  have "split block_sep (block ops r @ block_sep @ serialize ops rs @ rest) =
        block ops r # split block_sep (serialize ops rs @ rest)"
    by (simp add: split_block [OF r] split_block_sep_hit)
  then show ?case by (simp add: serialize_Cons IH)
qed

lemma hd_serialize: "rs \<noteq> [] \<Longrightarrow> hd (serialize ops rs @ rest) = 1044"
  by (cases rs) (simp_all add: serialize_Cons block_def key_date_def)

lemma strip_serialize_snoc:
  "strip (serialize ops (rs @ [r])) = serialize ops rs @ block ops r @ dashes"
proof -
  define body where "body = serialize ops rs @ block ops r @ dashes"
  have "hd body = 1044"
  proof (cases rs)
    case Nil
    then show ?thesis by (simp add: body_def serialize_def block_def key_date_def)
  next
    case (Cons x xs)
    then show ?thesis using hd_serialize [of rs ops "block ops r @ dashes"] by (simp add: body_def)
  qed
  moreover have "last body = 45" "body \<noteq> []" by (simp_all add: body_def dashes_def)
  ultimately have "strip body = body" by (simp add: strip_id isspace_def)
  moreover have "strip (body @ [10]) = strip body"
    using strip_pad [of "[]" "[10]" body] by (simp add: isspace_def)
  ultimately show ?thesis by (simp add: serialize_snoc body_def)
qed

lemma parse_entries_blocks:
  assumes "\<forall>r \<in> set rs. storable ops r"
  shows "parse_entries ops (map (block ops) rs @ es) st =
         parse_entries ops es (fst st @ map (reread ops) rs, snd st)"
  using assms
proof (induction rs arbitrary: st)
  case Nil
  show ?case by simp
next
  case (Cons r rs)
  then have "parse_entry ops (block ops r) st = Inr (fst st @ [reread ops r], snd st)"
    using parse_entry_block [of ops r "[]" st] by simp
  with Cons show ?case by simp
qed

lemma split_last_block:
  assumes "storable ops r"
  shows "split block_sep (block ops r @ dashes) = [block ops r @ dashes]"
proof -
  have "split block_sep dashes = [dashes]" by (simp add: block_sep_def dashes_def)
  then show ?thesis by (simp add: split_block [OF assms])
qed

section \<open>Splitting at any block separator, and reading a file\<close>

lemma block_sep_straddle:
  assumes "u \<noteq> []" and "prefix block_sep (u @ block_sep @ z)"
  shows "prefix block_sep u"
proof (cases "4 \<le> length u")
  case True
  from assms(2) obtain w where "u @ block_sep @ z = block_sep @ w"
    by (auto simp: prefix_def)
  then have "take 4 (u @ block_sep @ z) = take 4 (block_sep @ w)" by simp
  then have "take 4 (u @ block_sep @ z) = block_sep" by (simp add: block_sep_def)
  with True have "take 4 u = block_sep" by simp
  then show ?thesis by (metis take_is_prefix)
next
  case False
  from assms(2) have "(u @ block_sep @ z) ! 3 = 10"
    by (auto simp: prefix_def block_sep_def)
  moreover from False assms(1) have "(u @ block_sep @ z) ! 3 = 45"
    by (cases u; cases "tl u"; cases "tl (tl u)"; cases "tl (tl (tl u))")
      (auto simp: block_sep_def)
  ultimately show ?thesis by simp
qed

lemma split_block_sep_append:
  "split block_sep (u @ block_sep @ z) = split block_sep u @ split block_sep z"
proof (induction u rule: length_induct)
  case (1 u)
  show ?case
  proof (cases u)
    case Nil
    then show ?thesis by (simp add: split_block_sep_hit)
  next
    case (Cons c cs)
    show ?thesis
    proof (cases "prefix block_sep u")
      case True
      then obtain u' where u': "u = block_sep @ u'" by (auto simp: prefix_def)
      then have "length u' < length u" by (simp add: block_sep_def)
      with 1 have "split block_sep (u' @ block_sep @ z) = split block_sep u' @ split block_sep z"
        by blast
      then show ?thesis
        using split_block_sep_hit [of u'] split_block_sep_hit [of "u' @ block_sep @ z"]
        by (simp add: u')
    next
      case False
      with block_sep_straddle [of u z] Cons
      have miss: "\<not> prefix block_sep (c # cs @ block_sep @ z)" by auto
      from 1 Cons have IH: "split block_sep (cs @ block_sep @ z) =
          split block_sep cs @ split block_sep z"
        by simp
      have "split block_sep (c # cs @ block_sep @ z) =
            (c # hd (split block_sep cs)) # tl (split block_sep cs) @ split block_sep z"
        using split_Cons_miss [OF miss] split_not_Nil [of block_sep cs] by (simp add: IH)
      moreover have "split block_sep (c # cs) =
            (c # hd (split block_sep cs)) # tl (split block_sep cs)"
        using False Cons split_Cons_miss [of block_sep c cs] by simp
      ultimately show ?thesis by (simp add: Cons)
    qed
  qed
qed

lemma parse_entries_append:
  "parse_entries ops (es @ fs) st =
     (case parse_entries ops es st of Inl x \<Rightarrow> Inl x | Inr st' \<Rightarrow> parse_entries ops fs st')"
  by (induction es arbitrary: st) (simp_all split: sum.splits)

lemma build_record_raises:
  "build_record ops data = Inl e \<Longrightarrow> (\<exists>k. is_key k \<and> data k = None \<and> e = KeyError k) \<or> (\<exists>a. data key_amount = Some a \<and> of_str ops a = None \<and> e = ValueError a)"
  by (auto simp: build_record_def is_key_def split: option.splits)

lemma parse_lines_append:
  "parse_lines (xs @ ys) st =
     (case parse_lines xs st of Inl x \<Rightarrow> Inl x | Inr st' \<Rightarrow> parse_lines ys st')"
  by (induction xs arbitrary: st) (simp_all split: sum.splits)

lemma parse_line_raises: "parse_line l st = Inl e \<Longrightarrow> e = UnicodeEncodeError"
  by (auto simp: parse_line_def Let_def split: if_splits list.splits)

lemma parse_lines_raises: "parse_lines ls st = Inl e \<Longrightarrow> e = UnicodeEncodeError"
  by (induction ls arbitrary: st) (auto split: sum.splits dest: parse_line_raises)

lemma parse_entry_cases:
  assumes "strip e \<noteq> []"
  shows "parse_entry ops e (rs, out) =
     (case read_block e out of
        Inl x \<Rightarrow> Inl x
      | Inr (data, out') \<Rightarrow>
          (case build_record ops data of
             Inr r \<Rightarrow> Inr (rs @ [r], out')
           | Inl (KeyError k) \<Rightarrow> Inr (rs, out' @ [MissingKey k])
           | Inl (ValueError a) \<Rightarrow> Inr (rs, out' @ [BadAmount a])
           | Inl IndexError \<Rightarrow> Inl IndexError
           | Inl UnicodeEncodeError \<Rightarrow> Inl UnicodeEncodeError))"
  using assms
  by (simp add: parse_entry_def read_block_def Let_def split: sum.splits prod.splits exn.splits)

lemma parse_entry_raises: "parse_entry ops e st = Inl x \<Longrightarrow> x = UnicodeEncodeError"
proof (cases "strip e = []")
  case True
  then show "parse_entry ops e st = Inl x \<Longrightarrow> x = UnicodeEncodeError"
    by (simp add: parse_entry_def)
next
  case False
  assume run: "parse_entry ops e st = Inl x"
  show "x = UnicodeEncodeError"
  proof (cases "read_block e (snd st)")
    case (Inl y)
    then have "y = UnicodeEncodeError" unfolding read_block_def by (rule parse_lines_raises)
    with Inl run False parse_entry_cases [of e ops "fst st" "snd st"] show ?thesis by simp
  next
    case (Inr p)
    obtain data out' where p: "p = (data, out')" by (cases p)
    show ?thesis
    proof (cases "build_record ops data")
      case (Inl y)
      from build_record_raises [OF this] run False Inr p Inl
        parse_entry_cases [of e ops "fst st" "snd st"]
      show ?thesis by auto
    next
      case r: (Inr r)
      with run False Inr p parse_entry_cases [of e ops "fst st" "snd st"] show ?thesis by simp
    qed
  qed
qed

lemma parse_entries_raises: "parse_entries ops es st = Inl x \<Longrightarrow> x = UnicodeEncodeError"
  by (induction es arbitrary: st) (auto split: sum.splits dest: parse_entry_raises)

lemma set_strip: "set (strip s) \<subseteq> set s"
proof -
  have "set (rstrip t) \<subseteq> set t" for t
    unfolding rstrip_def using set_dropWhileD [of _ isspace "rev t"] by auto
  moreover have "set (lstrip s) \<subseteq> set s"
    unfolding lstrip_def using set_dropWhileD [of _ isspace s] by auto
  ultimately show ?thesis unfolding strip_def by blast
qed

lemma set_split: "p \<in> set (split sep s) \<Longrightarrow> set p \<subseteq> set s"
proof (induction sep s arbitrary: p rule: split.induct)
  case (1 sep)
  then show ?case by simp
next
  case (2 sep c cs)
  show ?case
  proof (cases "sep \<noteq> [] \<and> prefix sep (c # cs)")
    case True
    with 2(3) have "p = [] \<or> p \<in> set (split sep (drop (length sep) (c # cs)))" by auto
    then show ?thesis
    proof
      assume "p = []"
      then show ?thesis by simp
    next
      assume "p \<in> set (split sep (drop (length sep) (c # cs)))"
      with 2(1) True have "set p \<subseteq> set (drop (length sep) (c # cs))" by blast
      then show ?thesis using set_drop_subset [of "length sep" "c # cs"] by blast
    qed
  next
    case False
    with 2(3) split_not_Nil [of sep cs]
    have "p = c # hd (split sep cs) \<or> p \<in> set (tl (split sep cs))"
      by (auto split: list.splits)
    then show ?thesis
    proof
      assume p: "p = c # hd (split sep cs)"
      have "hd (split sep cs) \<in> set (split sep cs)" using split_not_Nil by simp
      with 2(2) False have "set (hd (split sep cs)) \<subseteq> set cs" by blast
      with p show ?thesis by auto
    next
      assume "p \<in> set (tl (split sep cs))"
      then have "p \<in> set (split sep cs)" by (rule list.set_sel(2) [rotated]) (rule split_not_Nil)
      with 2(2) False have "set p \<subseteq> set cs" by blast
      then show ?thesis by auto
    qed
  qed
qed

lemma writable_subset: "writable s \<Longrightarrow> set t \<subseteq> set s \<Longrightarrow> writable t"
  by (auto simp: writable_def list_all_iff)

lemma writable_append: "writable (a @ b) \<longleftrightarrow> writable a \<and> writable b"
  by (simp add: writable_def)

lemma parse_line_returns: "writable l \<Longrightarrow> \<exists>st'. parse_line l st = Inr st'"
  using writable_subset [OF _ set_strip, of l]
  by (auto simp: parse_line_def Let_def split: list.splits)

lemma parse_lines_returns: "list_all writable ls \<Longrightarrow> \<exists>st'. parse_lines ls st = Inr st'"
proof (induction ls arbitrary: st)
  case Nil
  show ?case by simp
next
  case (Cons l ls)
  then obtain st' where "parse_line l st = Inr st'" using parse_line_returns [of l st] by auto
  with Cons show ?case by simp
qed

lemma parse_entry_returns:
  assumes "writable e"
  shows "\<exists>st'. parse_entry ops e st = Inr st'"
proof (cases "parse_entry ops e st")
  case (Inr st')
  then show ?thesis by blast
next
  case (Inl x)
  have "list_all writable (split newline (strip e))"
    using assms set_split [of _ newline "strip e"] set_strip [of e]
    by (auto simp: list_all_iff intro: writable_subset)
  then obtain p where p: "read_block e (snd st) = Inr p"
    unfolding read_block_def using parse_lines_returns by blast
  obtain data out' where d: "p = (data, out')" by (cases p)
  from Inl have s: "strip e \<noteq> []" by (auto simp: parse_entry_def)
  show ?thesis
  proof (cases "build_record ops data")
    case b: (Inl y)
    from build_record_raises [OF this] Inl p d b s parse_entry_cases [of e ops "fst st" "snd st"]
    show ?thesis by auto
  next
    case b: (Inr r)
    with Inl p d s parse_entry_cases [of e ops "fst st" "snd st"] show ?thesis by simp
  qed
qed

lemma parse_entries_returns:
  "list_all writable es \<Longrightarrow> \<exists>st'. parse_entries ops es st = Inr st'"
proof (induction es arbitrary: st)
  case Nil
  show ?case by simp
next
  case (Cons e es)
  then obtain st' where "parse_entry ops e st = Inr st'"
    using parse_entry_returns [of e ops st] by auto
  with Cons show ?case by simp
qed

lemma parse_records_returns:
  assumes "writable content"
  shows "\<exists>rs out. parse_records ops content = Inr (rs, out)"
proof -
  have "list_all writable (split block_sep (strip content))"
    using assms set_split [of _ block_sep "strip content"] set_strip [of content]
    by (auto simp: list_all_iff intro: writable_subset)
  from parse_entries_returns [OF this, of ops "([], [])"] show ?thesis
    by (auto simp: parse_records_def)
qed

lemma read_text_keep: "c \<noteq> 13 \<Longrightarrow> read_text (c # cs) = c # read_text cs"
  by simp

lemma read_text_crlf: "read_text (13 # 10 # cs) = 10 # read_text cs"
  by simp

lemma read_text_cr: "cs = [] \<or> hd cs \<noteq> 10 \<Longrightarrow> read_text (13 # cs) = 10 # read_text cs"
  by (cases cs) simp_all

lemma read_text_id: "13 \<notin> set s \<Longrightarrow> read_text s = s"
  by (induction s) (simp_all del: read_text.simps add: read_text.simps(1) read_text_keep)

lemma read_text_append:
  "a = [] \<or> last a \<noteq> 13 \<Longrightarrow> read_text (a @ b) = read_text a @ read_text b"
proof (induction a rule: length_induct)
  case (1 a)
  show ?case
  proof (cases a)
    case Nil
    then show ?thesis by simp
  next
    case (Cons c cs)
    with 1 have cs: "cs = [] \<or> last cs \<noteq> 13" by (auto split: if_splits)
    from 1(1) Cons have "cs = [] \<or> last cs \<noteq> 13 \<longrightarrow>
        read_text (cs @ b) = read_text cs @ read_text b"
      by auto
    with cs have IH: "read_text (cs @ b) = read_text cs @ read_text b" by blast
    show ?thesis
    proof (cases "c = 13")
      case False
      then show ?thesis by (simp del: read_text.simps add: Cons read_text_keep IH)
    next
      case True
      with 1(2) Cons obtain d ds where d: "cs = d # ds" by (cases cs) auto
      show ?thesis
      proof (cases "d = 10")
        case False
        with d have "read_text (13 # cs @ b) = 10 # read_text (cs @ b)"
          "read_text (13 # cs) = 10 # read_text cs"
          using read_text_cr [of "cs @ b"] read_text_cr [of cs] by simp_all
        then show ?thesis by (simp del: read_text.simps add: Cons True IH)
      next
        case t: True
        from 1 Cons d have "ds = [] \<or> last ds \<noteq> 13" by (auto split: if_splits)
        moreover from 1(1) Cons d have "ds = [] \<or> last ds \<noteq> 13 \<longrightarrow>
            read_text (ds @ b) = read_text ds @ read_text b"
          by auto
        ultimately have "read_text (ds @ b) = read_text ds @ read_text b" by blast
        then show ?thesis
          by (simp del: read_text.simps add: Cons True d t read_text_crlf)
      qed
    qed
  qed
qed

lemma strip_strip: "strip (strip s) = strip s"
proof -
  have l: "lstrip s = [] \<or> \<not> isspace (hd (lstrip s))"
    unfolding lstrip_def by (metis hd_dropWhile)
  define t where "t = lstrip s"
  have r: "rstrip t = [] \<or> \<not> isspace (last (rstrip t))"
    unfolding rstrip_def by (metis hd_dropWhile last_rev rev_is_Nil_conv)
  have "rstrip t = [] \<or> hd (rstrip t) = hd t"
    unfolding rstrip_def
    by (metis append_Nil2 hd_append2 rev_append rev_rev_ident takeWhile_dropWhile_id)
  with l r have "strip s = [] \<or> \<not> isspace (hd (strip s)) \<and> \<not> isspace (last (strip s))"
    by (auto simp: strip_def t_def rstrip_Nil)
  then show ?thesis by (rule strip_id)
qed

lemma lstrip_before: "y \<noteq> [] \<Longrightarrow> \<not> isspace (hd y) \<Longrightarrow> lstrip (u @ y) = lstrip u @ y"
  by (simp add: lstrip_append lstrip_blank lstrip_id)

lemma last_block: "last (block ops r) = 10" "block ops r \<noteq> []"
  by (simp_all add: block_def newline_def)

lemma hd_block: "hd (block ops r @ rest) = 1044"
  by (simp add: block_def key_date_def)

lemma read_text_serialize:
  "\<exists>v. read_text (serialize ops rs) = (if rs = [] then [] else v @ block_sep)"
proof (cases rs rule: rev_cases)
  case Nil
  then show ?thesis by (simp add: serialize_def)
next
  case (snoc rs' r)
  have "serialize ops rs = (serialize ops rs' @ block ops r) @ block_sep"
    by (simp add: snoc serialize_snoc block_sep_def dashes_def)
  moreover have "last (serialize ops rs' @ block ops r) \<noteq> 13"
    by (simp add: last_block)
  ultimately have "read_text (serialize ops rs) =
      read_text (serialize ops rs' @ block ops r) @ read_text block_sep"
    using read_text_append [of "serialize ops rs' @ block ops r" block_sep] by simp
  moreover have "read_text block_sep = block_sep"
    by (simp add: read_text_id block_sep_def)
  ultimately show ?thesis using snoc by simp
qed

lemma last_serialize: "rs \<noteq> [] \<Longrightarrow> last (serialize ops rs) = 10"
  by (cases rs rule: rev_cases) (simp_all add: serialize_snoc)

lemma parse_after_any:
  assumes "storable ops r" and "p = [] \<or> (\<exists>v. p = v @ block_sep)" and "writable p"
  shows "\<exists>rs' out. parse_entries ops (split block_sep (p @ block ops r @ dashes)) ([], []) =
                    Inr (rs' @ [reread ops r], out)"
proof -
  from assms(2) obtain es where es: "split block_sep (p @ block ops r @ dashes) =
      es @ [block ops r @ dashes]" and wr: "list_all writable es"
  proof
    assume "p = []"
    then have "split block_sep (p @ block ops r @ dashes) = [] @ [block ops r @ dashes]"
      by (simp add: split_last_block [OF assms(1)])
    then show ?thesis by (rule that) simp
  next
    assume "\<exists>v. p = v @ block_sep"
    then obtain v where v: "p = v @ block_sep" by blast
    then have "split block_sep (p @ block ops r @ dashes) =
        split block_sep v @ [block ops r @ dashes]"
      using split_block_sep_append [of v "block ops r @ dashes"]
      by (simp add: split_last_block [OF assms(1)])
    moreover have "list_all writable (split block_sep v)"
      using assms(3) v set_split [of _ block_sep v]
      by (auto simp: list_all_iff writable_append intro: writable_subset)
    ultimately show ?thesis by (rule that)
  qed
  obtain st' where st': "parse_entries ops es ([], []) = Inr st'"
    using parse_entries_returns [OF wr] by blast
  have "parse_entries ops (es @ [block ops r @ dashes]) ([], []) =
        Inr (fst st' @ [reread ops r], snd st')"
    using parse_entry_block [OF assms(1), of dashes st']
    by (simp add: parse_entries_append st')
  with es show ?thesis by auto
qed

lemma reload_text:
  assumes "13 \<notin> set (block ops r)"
  shows "\<exists>p. (p = [] \<or> (\<exists>v. p = v @ block_sep)) \<and>
             strip (read_text (serialize ops (rs @ [r]))) = p @ block ops r @ dashes"
proof -
  define x where "x = block ops r @ dashes"
  have x: "x \<noteq> []" "hd (x @ [10]) = 1044" "last x = 45" "13 \<notin> set (x @ [10])"
    using assms hd_block [of ops r "dashes @ [10]"] by (simp_all add: x_def dashes_def)
  obtain v where v: "read_text (serialize ops rs) = (if rs = [] then [] else v @ block_sep)"
    using read_text_serialize by blast
  define u where "u = read_text (serialize ops rs)"
  have "serialize ops rs = [] \<or> last (serialize ops rs) \<noteq> 13"
    using last_serialize [of rs ops] by (cases "rs = []") (simp_all add: serialize_def)
  then have "read_text (serialize ops rs @ x @ [10]) = u @ read_text (x @ [10])"
    unfolding u_def by (rule read_text_append)
  then have rd: "read_text (serialize ops (rs @ [r])) = u @ x @ [10]"
    using x(4) by (simp add: serialize_snoc x_def read_text_id)
  have "lstrip (u @ x @ [10]) = lstrip u @ x @ [10]"
    using lstrip_before [of "x @ [10]" u] x(2) by (simp add: isspace_def)
  moreover have "rstrip ((lstrip u @ x) @ [10]) = rstrip (lstrip u @ x)"
    by (rule rstrip_pad) (simp add: isspace_def)
  moreover have "rstrip (lstrip u @ x) = lstrip u @ x"
    using x(1,3) by (simp add: rstrip_id isspace_def)
  ultimately have s: "strip (u @ x @ [10]) = lstrip u @ x"
    by (simp add: strip_def)
  have "lstrip u = [] \<or> (\<exists>w. lstrip u = w @ block_sep)"
  proof (cases "rs = []")
    case True
    with v show ?thesis by (simp add: u_def lstrip_def)
  next
    case False
    with v have "u = v @ block_sep" by (simp add: u_def)
    moreover have "lstrip (v @ block_sep) = lstrip v @ block_sep"
      by (rule lstrip_before) (simp_all add: block_sep_def isspace_def)
    ultimately show ?thesis by simp
  qed
  with s rd show ?thesis by (auto simp: x_def)
qed

section \<open>Writing the file\<close>

lemma write_all_result:
  "write_all cs written =
     (if list_all writable cs then Inr () else Inl UnicodeEncodeError,
      written @ concat (takeWhile writable cs))"
  by (induction cs arbitrary: written) simp_all

lemma writes_text: "concat (concat (map (record_writes ops) rs)) = serialize ops rs"
  by (induction rs) (simp_all add: record_writes_def serialize_def block_def)

lemma writes_writable:
  "list_all writable (concat (map (record_writes ops) rs)) \<longleftrightarrow> list_all (writable_record ops) rs"
  by (induction rs)
    (auto simp: record_writes_def writable_record_def writable_def encodable_def key_date_def
      key_category_def key_amount_def key_description_def kv_sep_def newline_def block_sep_def)

lemma writes_nonempty: "c \<in> set (concat (map (record_writes ops) rs)) \<Longrightarrow> c \<noteq> []"
  by (auto simp: record_writes_def newline_def block_sep_def)

lemma takeWhile_all: "list_all P xs \<Longrightarrow> takeWhile P xs = xs"
  by (simp add: list_all_iff)

lemma save_records_done:
  assumes "list_all (writable_record ops) (records m)"
  shows "save_records ops m fs = (Inr (), fs(filepath m \<mapsto> serialize ops (records m)))"
  using assms
  by (simp add: save_records_def write_all_result writes_writable writes_text takeWhile_all)

lemma save_records_cut:
  assumes "\<not> list_all (writable_record ops) (records m)"
  shows "\<exists>t. save_records ops m fs = (Inl UnicodeEncodeError, fs(filepath m \<mapsto> t)) \<and>
             prefix t (serialize ops (records m)) \<and> t \<noteq> serialize ops (records m)"
proof -
  define cs where "cs = concat (map (record_writes ops) (records m))"
  define t where "t = concat (takeWhile writable cs)"
  from assms have no: "\<not> list_all writable cs" by (simp add: cs_def writes_writable)
  then have run: "save_records ops m fs = (Inl UnicodeEncodeError, fs(filepath m \<mapsto> t))"
    by (simp add: save_records_def write_all_result cs_def t_def)
  have whole: "serialize ops (records m) = t @ concat (dropWhile writable cs)"
    unfolding t_def cs_def writes_text [symmetric]
    by (metis concat_append takeWhile_dropWhile_id)
  from no have "dropWhile writable cs \<noteq> []" by (simp add: list_all_iff)
  then obtain c rest where d: "dropWhile writable cs = c # rest" by (cases "dropWhile writable cs") auto
  then have "c \<in> set cs" by (metis list.set_intros(1) set_dropWhileD)
  then have "c \<noteq> []" unfolding cs_def by (rule writes_nonempty)
  with d have "concat (dropWhile writable cs) \<noteq> []" by simp
  with whole run show ?thesis by (auto simp: prefix_def)
qed

lemma serialize_lines:
  "serialize ops rs =
     concat (map (\<lambda>r. kv_line key_date (date r) @ newline @
                      kv_line key_category (category r) @ newline @
                      kv_line key_amount (to_str ops (amount r)) @ newline @
                      kv_line key_description (description r) @ newline @
                      dashes @ newline) rs)"
  by (simp add: serialize_def block_def kv_line_def block_sep_def dashes_def newline_def)

lemma delete_record_inside:
  assumes "0 \<le> index \<and> index < int (length (records m))"
  shows "delete_record ops index (fs, m) =
     (fst (save_records ops (m\<lparr>records := take (nat index) (records m) @
                                          drop (nat index + 1) (records m)\<rparr>) fs),
      snd (save_records ops (m\<lparr>records := take (nat index) (records m) @
                                          drop (nat index + 1) (records m)\<rparr>) fs),
      m\<lparr>records := take (nat index) (records m) @ drop (nat index + 1) (records m)\<rparr>)"
  using assms by (simp add: delete_record_def Let_def case_prod_beta)

lemma edit_record_inside:
  assumes "0 \<le> index \<and> index < int (length (records m))"
  shows "edit_record ops index new_record (fs, m) =
     (fst (save_records ops (m\<lparr>records := (records m)[nat index := new_record]\<rparr>) fs),
      snd (save_records ops (m\<lparr>records := (records m)[nat index := new_record]\<rparr>) fs),
      m\<lparr>records := (records m)[nat index := new_record]\<rparr>)"
  using assms by (simp add: edit_record_def Let_def case_prod_beta)

lemma add_record_parts:
  "add_record ops r (fs, m) =
     (fst (save_records ops (m\<lparr>records := records m @ [r]\<rparr>) fs),
      snd (save_records ops (m\<lparr>records := records m @ [r]\<rparr>) fs),
      m\<lparr>records := records m @ [r]\<rparr>)"
  by (simp add: add_record_def Let_def case_prod_beta)

lemma nth_before_gap: "i < length xs \<Longrightarrow> j < i \<Longrightarrow> (take i xs @ drop (i + 1) xs) ! j = xs ! j"
  by (simp add: nth_append)

lemma nth_after_gap:
  "i < length xs \<Longrightarrow> i \<le> j \<Longrightarrow> j + 1 < length xs \<Longrightarrow> (take i xs @ drop (i + 1) xs) ! j = xs ! (j + 1)"
  by (simp add: nth_append min_def)

lemma length_gap: "i < length xs \<Longrightarrow> length (take i xs @ drop (i + 1) xs) + 1 = length xs"
  by simp

lemma ledger_writable: "list_all (writable_record whole_ops) ledger"
  by (simp add: ledger_def writable_record_def writable_def encodable_def text_defs number_defs)

lemma rent_writable: "writable_record whole_ops rent"
  by (simp add: rent_def writable_record_def writable_def encodable_def text_defs number_defs)

lemma padded_writable: "writable_record whole_ops padded"
  by (simp add: padded_def writable_record_def writable_def encodable_def text_defs number_defs)

lemma tainted_cut:
  "write_all (record_writes whole_ops tainted) written =
     (Inl UnicodeEncodeError,
      written @ kv_line key_date (asc ''2024-03-05'') @ newline @
        kv_line key_category expense_label @ newline @
        kv_line key_amount (asc ''12.0'') @ newline)"
  by (simp add: tainted_def record_writes_def kv_line_def writable_def encodable_def text_defs
      number_defs)

lemma write_all_append:
  "write_all (as @ bs) written =
     (case write_all as written of (Inr u, w) \<Rightarrow> write_all bs w | (Inl e, w) \<Rightarrow> (Inl e, w))"
  by (induction as arbitrary: written) simp_all

lemma write_all_record:
  "writable_record ops r \<Longrightarrow> write_all (record_writes ops r) written = (Inr (), written @ block ops r @ block_sep)"
  by (simp add: record_writes_def writable_record_def block_def writable_def encodable_def
      key_date_def key_category_def key_amount_def key_description_def kv_sep_def newline_def
      block_sep_def)

lemma set_read_text: "set (read_text s) \<subseteq> insert 10 (set s)"
proof (induction s rule: length_induct)
  case (1 s)
  show ?case
  proof (cases s)
    case Nil
    then show ?thesis by simp
  next
    case (Cons c cs)
    from 1 have cs: "set (read_text cs) \<subseteq> insert 10 (set cs)"
      by (simp add: Cons del: read_text.simps)
    show ?thesis
    proof (cases "c = 13")
      case False
      then have "read_text (c # cs) = c # read_text cs" by (rule read_text_keep)
      with cs show ?thesis
        unfolding Cons by (auto simp del: read_text.simps)
    next
      case True
      show ?thesis
      proof (cases "cs = [] \<or> hd cs \<noteq> 10")
        case True
        then have "read_text (13 # cs) = 10 # read_text cs" by (rule read_text_cr)
        with cs \<open>c = 13\<close> show ?thesis
          unfolding Cons by (auto simp del: read_text.simps)
      next
        case False
        then obtain ds where ds: "cs = 10 # ds" by (cases cs) auto
        from 1 have "set (read_text ds) \<subseteq> insert 10 (set ds)"
          by (simp add: Cons ds del: read_text.simps)
        moreover have "read_text (13 # 10 # ds) = 10 # read_text ds" by (rule read_text_crlf)
        ultimately show ?thesis
          unfolding Cons ds \<open>c = 13\<close> by (auto simp del: read_text.simps)
      qed
    qed
  qed
qed

lemma serialize_writable:
  "list_all (writable_record ops) rs \<Longrightarrow> writable (serialize ops rs)"
  unfolding writes_text [symmetric] writes_writable [symmetric]
  by (simp add: writable_def list_all_iff)

lemma read_text_writable: "writable s \<Longrightarrow> writable (read_text s)"
  using set_read_text [of s] by (auto simp: writable_def list_all_iff encodable_def)

section \<open>White space in a line\<close>

lemma parse_line_strip: "strip a = strip b \<Longrightarrow> parse_line a st = parse_line b st"
  by (simp add: parse_line_def)

text \<open>
  C9, as amended: white space in front of the key and behind the value of a line is
  insignificant: in any block, the line with that white space and the line without it
  leave the same dictionary and the same output, hence the same field value. White space
  between the separator and the value is kept as part of the value.
\<close>

theorem parse_line_padding:
  "(list_all isspace ws1 \<and> list_all isspace ws2 \<longrightarrow>
      parse_lines (ls1 @ (ws1 @ kv_line k (v @ ws2)) # ls2) st =
      parse_lines (ls1 @ kv_line k v # ls2) st) \<and>
   (is_key k \<and> v \<noteq> [] \<and> \<not> isspace (last v) \<longrightarrow>
      parse_line (kv_line k (ws @ v)) st = Inr ((fst st)(k \<mapsto> ws @ v), snd st))"
proof (intro conjI impI)
  assume ws: "list_all isspace ws1 \<and> list_all isspace ws2"
  have "ws1 @ kv_line k (v @ ws2) = ws1 @ kv_line k v @ ws2"
    by (simp add: kv_line_def)
  with ws have "strip (ws1 @ kv_line k (v @ ws2)) = strip (kv_line k v)"
    using strip_pad [of ws1 ws2 "kv_line k v"] by (simp add: list_all_iff)
  then have "parse_line (ws1 @ kv_line k (v @ ws2)) s = parse_line (kv_line k v) s" for s
    by (rule parse_line_strip)
  then show "parse_lines (ls1 @ (ws1 @ kv_line k (v @ ws2)) # ls2) st =
      parse_lines (ls1 @ kv_line k v # ls2) st"
    by (simp add: parse_lines_append split: sum.splits)
next
  assume a: "is_key k \<and> v \<noteq> [] \<and> \<not> isspace (last v)"
  define l where "l = kv_line k (ws @ v)"
  have "l \<noteq> []" "\<not> isspace (hd l)" "\<not> isspace (last l)" "hd l \<noteq> 45"
    using a key_facts(1,2,5) [of k] by (simp_all add: l_def kv_line_def)
  then have "strip l = l" "l \<noteq> dashes"
    by (auto simp: strip_id dashes_def)
  moreover have "split1 kv_sep l = [k, ws @ v]"
    using a key_facts(4) [of k "ws @ v"] by (simp add: l_def kv_line_def)
  ultimately show "parse_line (kv_line k (ws @ v)) st = Inr ((fst st)(k \<mapsto> ws @ v), snd st)"
    using \<open>l \<noteq> []\<close> by (simp add: parse_line_def Let_def l_def [symmetric])
qed

theorem parse_line_padding_witness:
  "list_all isspace [32, 32] \<and> list_all isspace [9, 32] \<and>
   parse_lines [[32, 32] @ kv_line key_description (asc ''lunch'' @ [9, 32])] (Map.empty, []) =
     Inr ([key_description \<mapsto> asc ''lunch''], []) \<and>
   is_key key_description \<and> asc ''lunch'' \<noteq> [] \<and> \<not> isspace (last (asc ''lunch'')) \<and>
   parse_line (kv_line key_description ([32] @ asc ''lunch'')) (Map.empty, []) =
     Inr ([key_description \<mapsto> [32] @ asc ''lunch''], [])"
proof -
  have sp: "list_all isspace [32, 32]" "list_all isspace [9, 32]"
    by (simp_all add: isspace_def)
  have v: "asc ''lunch'' \<noteq> []" "\<not> isspace (last (asc ''lunch''))" "keeps (asc ''lunch'')"
    by (simp_all add: keeps_def suffix_to_prefix text_defs)
  have "parse_lines [kv_line key_description (asc ''lunch'')] (Map.empty, []) =
        Inr ([key_description \<mapsto> asc ''lunch''], [])"
    using parse_line_kv [OF is_key_simps(4) v(3), of "(Map.empty, [])"]
    by simp
  with sp v show ?thesis
    using parse_line_padding [of "[32, 32]" "[9, 32]" "[]" key_description "asc ''lunch''" "[]"
        "(Map.empty, [])"]
      parse_line_padding [of _ _ _ key_description "asc ''lunch''" _ _ "[32]"]
    by (simp add: is_key_simps)
qed

theorem parse_line_padding_counterexample:
  "parse_records whole_ops (serialize whole_ops [plain]) = Inr ([plain], []) \<and>
   parse_records whole_ops (serialize whole_ops [indented]) = Inr ([indented], []) \<and>
   block whole_ops indented =
     kv_line key_date (date plain) @ newline @ kv_line key_category (category plain) @ newline @
     kv_line key_amount (to_str whole_ops (amount plain)) @ newline @
     kv_line key_description ([32] @ description plain) @ newline \<and>
   description indented \<noteq> description plain"
proof -
  have "parse_records whole_ops (serialize whole_ops [plain]) = Inr ([plain], [])"
    by (rule plain_run)
  moreover have "parse_records whole_ops (serialize whole_ops [indented]) = Inr ([indented], [])"
    by (simp add: indented_def parse_defs text_defs number_defs)
  moreover have "block whole_ops indented =
     kv_line key_date (date plain) @ newline @ kv_line key_category (category plain) @ newline @
     kv_line key_amount (to_str whole_ops (amount plain)) @ newline @
     kv_line key_description ([32] @ description plain) @ newline"
    by (simp add: block_def kv_line_def indented_def plain_def asc_def)
  moreover have "description indented \<noteq> description plain"
    by (simp add: indented_def plain_def asc_def)
  ultimately show ?thesis by blast
qed


section \<open>Saving and parsing again\<close>

text \<open>
  C2, as amended: for every list of records whose three texts and whose printed amount are
  each not empty, on one line, not ending in white space and not ending in \<open>---\<close>, and
  whose printed amount converts back to an equal number, parsing the text that
  \<open>save_records\<close> writes returns, without any message, the same records in the same
  order: equal in date, category and description, and equal as numbers in the amount.
\<close>

theorem parse_serialize_storable:
  assumes "list_all (storable ops) rs"
  shows "parse_records ops (serialize ops rs) = Inr (map (reread ops) rs, []) \<and>
         list_all2 (same_record ops) (map (reread ops) rs) rs"
proof
  from assms have all: "\<forall>r \<in> set rs. storable ops r" by (simp add: list_all_iff)
  show "list_all2 (same_record ops) (map (reread ops) rs) rs"
    using all by (simp add: list_all2_conv_all_nth same_record_reread)
  show "parse_records ops (serialize ops rs) = Inr (map (reread ops) rs, [])"
  proof (cases rs rule: rev_cases)
    case Nil
    then show ?thesis
      by (simp add: parse_records_def serialize_def strip_id parse_entry_def)
  next
    case (snoc rs' r)
    with all have s: "\<forall>x \<in> set rs'. storable ops x" "storable ops r" by simp_all
    have "split block_sep (strip (serialize ops rs)) = map (block ops) rs' @ [block ops r @ dashes]"
      by (simp add: snoc strip_serialize_snoc split_serialize [OF s(1)] split_last_block [OF s(2)])
    moreover have "parse_entries ops (map (block ops) rs' @ [block ops r @ dashes]) ([], []) =
          Inr (map (reread ops) rs' @ [reread ops r], [])"
      using parse_entry_block [OF s(2), of dashes]
      by (simp add: parse_entries_blocks [OF s(1)])
    ultimately show ?thesis by (simp add: parse_records_def snoc)
  qed
qed

theorem parse_serialize_storable_witness:
  "list_all (storable whole_ops) ledger \<and>
   parse_records whole_ops (serialize whole_ops ledger) = Inr (ledger, [])"
proof -
  have "map (reread whole_ops) ledger = ledger"
    using ledger_storable by (simp add: map_idI reread_whole list_all_iff)
  with parse_serialize_storable [OF ledger_storable] ledger_storable
  show ?thesis by simp
qed

theorem parse_serialize_counterexample:
  "parse_records whole_ops (serialize whole_ops [padded]) =
     Inr ([padded\<lparr>description := asc ''lunch''\<rparr>], []) \<and>
   \<not> same_record whole_ops (padded\<lparr>description := asc ''lunch''\<rparr>) padded \<and>
   parse_records whole_ops (serialize whole_ops [two_lined]) =
     Inr ([two_lined\<lparr>description := asc ''tea''\<rparr>], [Unparsable (asc ''cake'')]) \<and>
   \<not> same_record whole_ops (two_lined\<lparr>description := asc ''tea''\<rparr>) two_lined \<and>
   parse_records whole_ops (serialize whole_ops [dashed]) =
     Inr ([dashed\<lparr>description := asc ''end''\<rparr>], [MissingKey key_date]) \<and>
   \<not> same_record whole_ops (dashed\<lparr>description := asc ''end''\<rparr>) dashed"
proof -
  have a: "parse_records whole_ops (serialize whole_ops [padded]) =
     Inr ([padded\<lparr>description := asc ''lunch''\<rparr>], [])"
    by (simp add: padded_def parse_defs text_defs number_defs)
  have b: "parse_records whole_ops (serialize whole_ops [two_lined]) =
     Inr ([two_lined\<lparr>description := asc ''tea''\<rparr>], [Unparsable (asc ''cake'')])"
    by (simp add: two_lined_def parse_defs text_defs number_defs)
  have c: "parse_records whole_ops (serialize whole_ops [dashed]) =
     Inr ([dashed\<lparr>description := asc ''end''\<rparr>], [MissingKey key_date])"
    by (simp add: dashed_def parse_defs text_defs number_defs)
  have d: "\<not> same_record whole_ops (padded\<lparr>description := asc ''lunch''\<rparr>) padded"
    "\<not> same_record whole_ops (two_lined\<lparr>description := asc ''tea''\<rparr>) two_lined"
    "\<not> same_record whole_ops (dashed\<lparr>description := asc ''end''\<rparr>) dashed"
    by (simp_all add: same_record_def padded_def two_lined_def dashed_def asc_def)
  from a b c d show ?thesis by blast
qed

section \<open>Search\<close>

lemma search_loop_filter:
  "search_loop ops c d a result rs = result @ filter (selected ops c d a) rs"
proof (induction rs arbitrary: result)
  case Nil
  show ?case by simp
next
  case (Cons r rs)
  have "selected ops c d a r \<longleftrightarrow>
        (c = None \<or> Some (category r) = c) \<and> (d = None \<or> Some (date r) = d) \<and>
        (case a of None \<Rightarrow> True | Some x \<Rightarrow> feq ops (amount r) x)"
    by (cases c; cases d; cases a) (auto simp: selected_def)
  then show ?case by (simp add: Cons.IH)
qed

text \<open>
  C4: \<open>search_records\<close> returns exactly the records that match every given filter
  (equality of the category, of the date, and \<open>==\<close> on the amount), in the order of the
  list; with no filter it returns all records; when no record matches it returns the empty
  list.
\<close>

theorem search_records_filter:
  "search_records ops c d a m = filter (selected ops c d a) (records m) \<and>
   search_records ops None None None m = records m \<and>
   ((\<forall>r \<in> set (records m). \<not> selected ops c d a r) \<longrightarrow> search_records ops c d a m = [])"
proof -
  have "search_records ops c d a m = filter (selected ops c d a) (records m)"
    by (simp add: search_records_def search_loop_filter)
  moreover have "search_records ops None None None m = records m"
    by (simp add: search_records_def search_loop_filter selected_def)
  ultimately show ?thesis by (simp add: filter_empty_conv)
qed

theorem search_records_filter_witness:
  "search_records whole_ops (Some expense_label) (Some (asc ''2024-01-01'')) None wallet = [ledger ! 1] \<and>
   search_records whole_ops None None None wallet = ledger \<and>
   \<not> list_ex (selected whole_ops (Some (asc ''Rent'')) None None) (records wallet) \<and>
   search_records whole_ops (Some (asc ''Rent'')) None None wallet = []"
proof -
  have no: "\<forall>r \<in> set (records wallet). \<not> selected whole_ops (Some (asc ''Rent'')) None None r"
    by (simp add: wallet_def ledger_def selected_def asc_def income_label_def expense_label_def)
  have "filter (selected whole_ops (Some expense_label) (Some (asc ''2024-01-01'')) None) (records wallet)
        = [ledger ! 1]"
    using ledger_labels by (simp add: wallet_def ledger_def selected_def asc_def)
  with no show ?thesis
    using search_records_filter [of whole_ops "Some expense_label" "Some (asc ''2024-01-01'')" None wallet]
      search_records_filter [of whole_ops "Some (asc ''Rent'')" None None wallet]
    by (simp add: wallet_def list_ex_iff)
qed

section \<open>Loading\<close>

text \<open>C8: when the path does not exist, \<open>load_records\<close> returns the empty list: no exception,
  nothing parsed and nothing printed.\<close>

theorem load_records_missing:
  "fs path = None \<Longrightarrow> load_records ops fs path = Inr ([], [])"
  by (simp add: load_records_def)

theorem load_records_missing_witness:
  "(Map.empty :: files) (asc ''wallet.txt'') = None \<and>
   load_records whole_ops Map.empty (asc ''wallet.txt'') = Inr ([], [])"
  using load_records_missing [of Map.empty "asc ''wallet.txt''" whole_ops] by simp

section \<open>Totals\<close>

lemma selected_amounts: "[amount r. r \<leftarrow> rs, category r = label] = amounts_of label rs"
  by (induction rs) (simp_all add: amounts_of_def)

lemma amounts_of_skip:
  "category r \<noteq> label \<Longrightarrow> amounts_of label (xs @ r # ys) = amounts_of label (xs @ ys)"
  by (simp add: amounts_of_def)

text \<open>
  C1, as amended: \<open>calculate_finances\<close> returns the balance, the income and the expense,
  where the income is the sum of the amounts of exactly the records whose category is the
  reserved literal of the source for income, \<open>income_label\<close>, taken in the order of the
  list, the expense is the sum over exactly the records whose category is \<open>expense_label\<close>,
  and the balance is the income minus the expense. The two reserved literals are the
  Russian words of the source, not the English words \<open>Income\<close> and \<open>Expense\<close>. A record
  of any other category changes none of the three results, wherever it stands in the list.
\<close>

theorem calculate_finances_totals:
  "calculate_finances ops m =
     (fsub ops (fsum ops (amounts_of income_label (records m)))
               (fsum ops (amounts_of expense_label (records m))),
      fsum ops (amounts_of income_label (records m)),
      fsum ops (amounts_of expense_label (records m))) \<and>
   amounts_of label [] = [] \<and>
   amounts_of label (rs @ [r]) =
     (if category r = label then amounts_of label rs @ [amount r] else amounts_of label rs) \<and>
   (category r \<noteq> income_label \<and> category r \<noteq> expense_label \<longrightarrow>
      calculate_finances ops (m\<lparr>records := xs @ r # ys\<rparr>) =
      calculate_finances ops (m\<lparr>records := xs @ ys\<rparr>))"
proof -
  have eq: "calculate_finances ops m =
     (fsub ops (fsum ops (amounts_of income_label (records m)))
               (fsum ops (amounts_of expense_label (records m))),
      fsum ops (amounts_of income_label (records m)),
      fsum ops (amounts_of expense_label (records m)))" for m
    unfolding calculate_finances_def Let_def selected_amounts ..
  have snoc: "amounts_of label (rs @ [r]) =
     (if category r = label then amounts_of label rs @ [amount r] else amounts_of label rs)"
    by (simp add: amounts_of_def)
  have nil: "amounts_of label [] = []"
    by (simp add: amounts_of_def)
  have skip: "category r \<noteq> income_label \<and> category r \<noteq> expense_label \<longrightarrow>
      calculate_finances ops (m\<lparr>records := xs @ r # ys\<rparr>) =
      calculate_finances ops (m\<lparr>records := xs @ ys\<rparr>)"
    by (simp add: eq amounts_of_skip)
  from eq [of m] nil snoc skip show ?thesis by blast
qed

theorem calculate_finances_totals_witness:
  "calculate_finances whole_ops wallet = (60, 100, 40) \<and>
   calculate_finances whole_ops (wallet\<lparr>records := take 2 ledger\<rparr>) = (60, 100, 40)"
proof -
  have t: "fsum whole_ops (amounts_of income_label ledger) = 100"
    "fsum whole_ops (amounts_of expense_label ledger) = 40"
    using ledger_labels by (simp_all add: amounts_of_def ledger_def whole_ops_def)
  have d: "fsub whole_ops 100 40 = 60" by (simp add: whole_ops_def)
  have a: "calculate_finances whole_ops wallet = (60, 100, 40)"
    using calculate_finances_totals [of whole_ops wallet "[]" "[]" "ledger ! 2" "[]" "[]", THEN conjunct1] t d
    by (simp add: wallet_def)
  have c: "category (ledger ! 2) \<noteq> income_label \<and> category (ledger ! 2) \<noteq> expense_label"
    using ledger_labels by (simp add: ledger_def)
  have "category (ledger ! 2) \<noteq> income_label \<and> category (ledger ! 2) \<noteq> expense_label \<longrightarrow>
        calculate_finances whole_ops (wallet\<lparr>records := take 2 ledger @ ledger ! 2 # []\<rparr>) =
        calculate_finances whole_ops (wallet\<lparr>records := take 2 ledger @ []\<rparr>)"
    using calculate_finances_totals [of whole_ops wallet "[]" "[]" "ledger ! 2" "take 2 ledger" "[]",
        THEN conjunct2, THEN conjunct2, THEN conjunct2] .
  with c have "calculate_finances whole_ops (wallet\<lparr>records := take 2 ledger @ ledger ! 2 # []\<rparr>) =
        calculate_finances whole_ops (wallet\<lparr>records := take 2 ledger @ []\<rparr>)"
    by blast
  then have "calculate_finances whole_ops (wallet\<lparr>records := take 2 ledger @ [ledger ! 2]\<rparr>) =
        calculate_finances whole_ops (wallet\<lparr>records := take 2 ledger\<rparr>)"
    by (simp only: append_Nil2)
  moreover have "take 2 ledger @ [ledger ! 2] = ledger" by (simp add: ledger_def)
  moreover have "wallet\<lparr>records := ledger\<rparr> = wallet" by (simp add: wallet_def)
  ultimately show ?thesis using a by simp
qed

text \<open>
  With the English literals of the claim's example, no record is counted: the three results
  are zero, not 60, 100 and 40.
\<close>

theorem calculate_finances_totals_counterexample:
  "calculate_finances whole_ops (wallet\<lparr>records := english_ledger\<rparr>) = (0, 0, 0)"
  by (simp add: calculate_finances_def english_ledger_def whole_ops_def asc_def
      income_label_def expense_label_def)

section \<open>Adding\<close>

text \<open>
  C3, as amended: \<open>add_record\<close> appends the record at the end of the list in memory and
  then writes the whole list to the file from the start. When the texts of all records of
  the new list can be encoded, the call returns and the file holds, for each record in
  order, its four lines and the delimiter line; when one cannot, the call raises
  \<open>UnicodeEncodeError\<close>, the record stays in the list and the file holds only a proper
  initial part of that text. When the file was written, and the three texts of the record
  and its printed amount are each not empty, on one line, not ending in white space and not
  ending in \<open>---\<close>, none of them holds a carriage return, and the printed amount converts
  back to an equal number, then a new manager on the same path loads without an exception a
  list whose last element is that record (equal in the three texts, and in the amount as
  numbers), whatever the records before it are.
\<close>

theorem add_record_reload:
  "snd (snd (add_record ops r (fs, m))) = m\<lparr>records := records m @ [r]\<rparr> \<and>
   (\<exists>content.
      content =
        concat (map (\<lambda>r. kv_line key_date (date r) @ newline @
                         kv_line key_category (category r) @ newline @
                         kv_line key_amount (to_str ops (amount r)) @ newline @
                         kv_line key_description (description r) @ newline @
                         dashes @ newline) (records m @ [r])) \<and>
      (list_all (writable_record ops) (records m @ [r]) \<longrightarrow>
         fst (add_record ops r (fs, m)) = Inr () \<and>
         fst (snd (add_record ops r (fs, m))) = fs(filepath m \<mapsto> content)) \<and>
      (\<not> list_all (writable_record ops) (records m @ [r]) \<longrightarrow>
         fst (add_record ops r (fs, m)) = Inl UnicodeEncodeError \<and>
         (\<exists>t. fst (snd (add_record ops r (fs, m))) = fs(filepath m \<mapsto> t) \<and>
              prefix t content \<and> t \<noteq> content))) \<and>
   (list_all (writable_record ops) (records m @ [r]) \<and> storable ops r \<and>
    13 \<notin> set (block ops r) \<longrightarrow>
      (\<exists>rs' out. init ops (fst (snd (add_record ops r (fs, m)))) (filepath m) =
                   Inr (\<lparr>filepath = filepath m, records = rs' @ [reread ops r]\<rparr>, out) \<and>
                 same_record ops (reread ops r) r))"
proof -
  define rs where "rs = records m @ [r]"
  define m' where "m' = m\<lparr>records := rs\<rparr>"
  have run: "add_record ops r (fs, m) =
      (fst (save_records ops m' fs), snd (save_records ops m' fs), m')"
    using add_record_parts [of ops r fs m] by (simp only: m'_def rs_def)
  have m': "records m' = rs" "filepath m' = filepath m" by (simp_all add: m'_def)
  have mem: "snd (snd (add_record ops r (fs, m))) = m\<lparr>records := records m @ [r]\<rparr>"
    by (simp add: run m'_def rs_def)
  have ok: "list_all (writable_record ops) rs \<longrightarrow>
      fst (add_record ops r (fs, m)) = Inr () \<and>
      fst (snd (add_record ops r (fs, m))) = fs(filepath m \<mapsto> serialize ops rs)"
    using save_records_done [of ops m' fs] by (simp add: run m')
  have cut: "\<not> list_all (writable_record ops) rs \<longrightarrow>
      fst (add_record ops r (fs, m)) = Inl UnicodeEncodeError \<and>
      (\<exists>t. fst (snd (add_record ops r (fs, m))) = fs(filepath m \<mapsto> t) \<and>
           prefix t (serialize ops rs) \<and> t \<noteq> serialize ops rs)"
  proof
    assume "\<not> list_all (writable_record ops) rs"
    then obtain t where "save_records ops m' fs = (Inl UnicodeEncodeError, fs(filepath m \<mapsto> t))"
      and "prefix t (serialize ops rs)" and "t \<noteq> serialize ops rs"
      using save_records_cut [of ops m' fs] by (auto simp: m')
    then show "fst (add_record ops r (fs, m)) = Inl UnicodeEncodeError \<and>
      (\<exists>t. fst (snd (add_record ops r (fs, m))) = fs(filepath m \<mapsto> t) \<and>
           prefix t (serialize ops rs) \<and> t \<noteq> serialize ops rs)"
      by (simp add: run) blast
  qed
  note saved = conjI [OF serialize_lines [of ops rs] conjI [OF ok cut]]
  have disk_text: "\<exists>content.
      content =
        concat (map (\<lambda>r. kv_line key_date (date r) @ newline @
                         kv_line key_category (category r) @ newline @
                         kv_line key_amount (to_str ops (amount r)) @ newline @
                         kv_line key_description (description r) @ newline @
                         dashes @ newline) (records m @ [r])) \<and>
      (list_all (writable_record ops) (records m @ [r]) \<longrightarrow>
         fst (add_record ops r (fs, m)) = Inr () \<and>
         fst (snd (add_record ops r (fs, m))) = fs(filepath m \<mapsto> content)) \<and>
      (\<not> list_all (writable_record ops) (records m @ [r]) \<longrightarrow>
         fst (add_record ops r (fs, m)) = Inl UnicodeEncodeError \<and>
         (\<exists>t. fst (snd (add_record ops r (fs, m))) = fs(filepath m \<mapsto> t) \<and>
              prefix t content \<and> t \<noteq> content))"
    unfolding rs_def [symmetric]
    by (rule exI [of _ "serialize ops rs"]) (rule saved)
  have reload: "list_all (writable_record ops) (records m @ [r]) \<and> storable ops r \<and>
    13 \<notin> set (block ops r) \<longrightarrow>
      (\<exists>rs' out. init ops (fst (snd (add_record ops r (fs, m)))) (filepath m) =
                   Inr (\<lparr>filepath = filepath m, records = rs' @ [reread ops r]\<rparr>, out) \<and>
                 same_record ops (reread ops r) r)"
  proof
    assume a: "list_all (writable_record ops) (records m @ [r]) \<and> storable ops r \<and>
      13 \<notin> set (block ops r)"
    then have w: "list_all (writable_record ops) rs" by (simp only: rs_def)
    with ok have written: "fst (snd (add_record ops r (fs, m))) (filepath m) = Some (serialize ops rs)"
      by simp
    from a obtain p where p: "p = [] \<or> (\<exists>v. p = v @ block_sep)"
      "strip (read_text (serialize ops rs)) = p @ block ops r @ dashes"
      unfolding rs_def using reload_text [of ops r "records m"] by blast
    have "writable (strip (read_text (serialize ops rs)))"
      using serialize_writable [OF w] read_text_writable writable_subset set_strip by blast
    then have "writable p" by (simp add: p(2) writable_append)
    with a p(1) obtain rs' out where parsed:
      "parse_entries ops (split block_sep (p @ block ops r @ dashes)) ([], []) =
       Inr (rs' @ [reread ops r], out)"
      using parse_after_any [of ops r p] by blast
    have "strip (p @ block ops r @ dashes) = p @ block ops r @ dashes"
      using strip_strip [of "read_text (serialize ops rs)"] by (simp add: p(2))
    with parsed have "load_records ops (fst (snd (add_record ops r (fs, m)))) (filepath m) =
        Inr (rs' @ [reread ops r], out)"
      by (simp add: written load_records_def parse_records_def p(2))
    then have "init ops (fst (snd (add_record ops r (fs, m)))) (filepath m) =
        Inr (\<lparr>filepath = filepath m, records = rs' @ [reread ops r]\<rparr>, out)"
      by (simp add: init_def)
    with a show "\<exists>rs' out. init ops (fst (snd (add_record ops r (fs, m)))) (filepath m) =
                   Inr (\<lparr>filepath = filepath m, records = rs' @ [reread ops r]\<rparr>, out) \<and>
                 same_record ops (reread ops r) r"
      by (auto simp: same_record_reread)
  qed
  from mem disk_text reload show ?thesis by (rule conjI [OF _ conjI])
qed

theorem add_record_reload_witness:
  "list_all (writable_record whole_ops) (ledger @ [rent]) \<and> storable whole_ops rent \<and>
   13 \<notin> set (block whole_ops rent) \<and>
   fst (add_record whole_ops rent (disk, wallet)) = Inr () \<and>
   snd (snd (add_record whole_ops rent (disk, wallet))) = wallet\<lparr>records := ledger @ [rent]\<rparr> \<and>
   (\<exists>rs' out. init whole_ops (fst (snd (add_record whole_ops rent (disk, wallet)))) (asc ''wallet.txt'') =
       Inr (\<lparr>filepath = asc ''wallet.txt'', records = rs' @ [rent]\<rparr>, out))"
proof -
  have cr: "13 \<notin> set (block whole_ops rent)"
    by (simp add: rent_def block_def text_defs number_defs)
  have w: "filepath wallet = asc ''wallet.txt''" "records wallet = ledger"
    by (simp_all add: wallet_def)
  have wr: "list_all (writable_record whole_ops) (records wallet @ [rent])"
    using ledger_writable rent_writable by (simp add: w)
  note reload = add_record_reload [of whole_ops rent disk wallet]
  from reload have mem: "snd (snd (add_record whole_ops rent (disk, wallet))) =
      wallet\<lparr>records := records wallet @ [rent]\<rparr>"
    by (rule conjunct1)
  from reload [THEN conjunct2, THEN conjunct1] wr
  have res: "fst (add_record whole_ops rent (disk, wallet)) = Inr ()"
    by blast
  from reload [THEN conjunct2, THEN conjunct2] wr rent_storable cr
  have "\<exists>rs' out. init whole_ops (fst (snd (add_record whole_ops rent (disk, wallet)))) (filepath wallet) =
       Inr (\<lparr>filepath = filepath wallet, records = rs' @ [reread whole_ops rent]\<rparr>, out)"
    by blast
  with mem res wr rent_storable cr show ?thesis by (simp add: w reread_whole)
qed

text \<open>
  Two records for which the claim fails. The description of \<open>padded\<close> ends in a space: the
  file is written, and the reloaded last record has the description without the space. The
  description of \<open>tainted\<close> cannot be encoded: the record is in the list, the call raises,
  and the reloaded list is the one before the call, with a report of the missing key.
\<close>

theorem add_record_reload_counterexample:
  "init whole_ops (fst (snd (add_record whole_ops padded (disk, wallet)))) (asc ''wallet.txt'') =
     Inr (\<lparr>filepath = asc ''wallet.txt'',
           records = ledger @ [padded\<lparr>description := asc ''lunch''\<rparr>]\<rparr>, []) \<and>
   \<not> same_record whole_ops (last (ledger @ [padded\<lparr>description := asc ''lunch''\<rparr>])) padded \<and>
   fst (add_record whole_ops tainted (disk, wallet)) = Inl UnicodeEncodeError \<and>
   snd (snd (add_record whole_ops tainted (disk, wallet))) = wallet\<lparr>records := ledger @ [tainted]\<rparr> \<and>
   init whole_ops (fst (snd (add_record whole_ops tainted (disk, wallet)))) (asc ''wallet.txt'') =
     Inr (\<lparr>filepath = asc ''wallet.txt'', records = ledger\<rparr>, [MissingKey key_description])"
proof -
  have "list_all (writable_record whole_ops) (ledger @ [padded])"
    using ledger_writable padded_writable by simp
  then have "fst (snd (add_record whole_ops padded (disk, wallet))) (asc ''wallet.txt'') =
        Some (serialize whole_ops (ledger @ [padded]))"
    by (simp add: add_record_parts wallet_def save_records_done)
  moreover have "13 \<notin> set (serialize whole_ops (ledger @ [padded]))"
    by (simp add: ledger_def padded_def serialize_def block_def text_defs number_defs)
  moreover have "parse_records whole_ops (strip (serialize whole_ops (ledger @ [padded]))) =
        Inr (ledger @ [padded\<lparr>description := asc ''lunch''\<rparr>], [])"
    by (simp add: ledger_def padded_def parse_defs text_defs number_defs)
  ultimately have one: "init whole_ops (fst (snd (add_record whole_ops padded (disk, wallet)))) (asc ''wallet.txt'') =
     Inr (\<lparr>filepath = asc ''wallet.txt'',
           records = ledger @ [padded\<lparr>description := asc ''lunch''\<rparr>]\<rparr>, [])"
    by (simp add: init_def load_records_def read_text_id)
  have two: "\<not> same_record whole_ops (last (ledger @ [padded\<lparr>description := asc ''lunch''\<rparr>])) padded"
    by (simp add: same_record_def padded_def asc_def)
  define cut where "cut = serialize whole_ops ledger @
        kv_line key_date (asc ''2024-03-05'') @ newline @
        kv_line key_category expense_label @ newline @
        kv_line key_amount (asc ''12.0'') @ newline"
  have "write_all (concat (map (record_writes whole_ops) ledger)) [] = (Inr (), serialize whole_ops ledger)"
    using ledger_writable by (simp add: write_all_result writes_writable writes_text takeWhile_all)
  then have run: "add_record whole_ops tainted (disk, wallet) =
      (Inl UnicodeEncodeError, disk(asc ''wallet.txt'' \<mapsto> cut), wallet\<lparr>records := ledger @ [tainted]\<rparr>)"
    by (simp add: add_record_def save_records_def wallet_def write_all_append tainted_cut cut_def)
  have "13 \<notin> set cut"
    by (simp add: cut_def ledger_def serialize_def block_def kv_line_def text_defs number_defs)
  moreover have "parse_records whole_ops (strip cut) = Inr (ledger, [MissingKey key_description])"
    by (simp add: cut_def ledger_def kv_line_def parse_defs text_defs number_defs)
  ultimately have three: "init whole_ops (fst (snd (add_record whole_ops tainted (disk, wallet)))) (asc ''wallet.txt'') =
     Inr (\<lparr>filepath = asc ''wallet.txt'', records = ledger\<rparr>, [MissingKey key_description])"
    by (simp add: run init_def load_records_def read_text_id)
  from one two three run show ?thesis by simp
qed

section \<open>Deleting and editing\<close>

text \<open>
  C5, as amended: with an index outside \<open>[0, length)\<close>, \<open>delete_record\<close> raises
  \<open>IndexError\<close> and leaves the list and the files as they were. With an index inside, the
  list in memory loses the record at that position and keeps the others in order, and the
  file is then written again from the start: when the texts of all remaining records can be
  encoded, the call returns and the file holds, for each remaining record in order, its four
  lines and the delimiter line; when one cannot, the call raises \<open>UnicodeEncodeError\<close> and
  the file holds only a proper initial part of that text.
\<close>

theorem delete_record_bounds:
  "(index < 0 \<or> int (length (records m)) \<le> index \<longrightarrow>
      delete_record ops index (fs, m) = (Inl IndexError, fs, m)) \<and>
   (0 \<le> index \<and> index < int (length (records m)) \<longrightarrow>
      (\<exists>rs content.
          snd (snd (delete_record ops index (fs, m))) = m\<lparr>records := rs\<rparr> \<and>
          rs = take (nat index) (records m) @ drop (nat index + 1) (records m) \<and>
          length rs + 1 = length (records m) \<and>
          (\<forall>j < nat index. rs ! j = records m ! j) \<and>
          (\<forall>j. nat index \<le> j \<and> j < length rs \<longrightarrow> rs ! j = records m ! (j + 1)) \<and>
          content =
            concat (map (\<lambda>r. kv_line key_date (date r) @ newline @
                             kv_line key_category (category r) @ newline @
                             kv_line key_amount (to_str ops (amount r)) @ newline @
                             kv_line key_description (description r) @ newline @
                             dashes @ newline) rs) \<and>
          (list_all (writable_record ops) rs \<longrightarrow>
             fst (delete_record ops index (fs, m)) = Inr () \<and>
             fst (snd (delete_record ops index (fs, m))) = fs(filepath m \<mapsto> content)) \<and>
          (\<not> list_all (writable_record ops) rs \<longrightarrow>
             fst (delete_record ops index (fs, m)) = Inl UnicodeEncodeError \<and>
             (\<exists>t. fst (snd (delete_record ops index (fs, m))) = fs(filepath m \<mapsto> t) \<and>
                  prefix t content \<and> t \<noteq> content))))"
proof (intro conjI impI)
  assume "index < 0 \<or> int (length (records m)) \<le> index"
  then show "delete_record ops index (fs, m) = (Inl IndexError, fs, m)"
    by (auto simp: delete_record_def)
next
  assume inside: "0 \<le> index \<and> index < int (length (records m))"
  define i where "i = nat index"
  define rs where "rs = take i (records m) @ drop (i + 1) (records m)"
  define m' where "m' = m\<lparr>records := rs\<rparr>"
  from inside have i: "i < length (records m)" by (simp add: i_def nat_less_iff)
  have run: "delete_record ops index (fs, m) =
      (fst (save_records ops m' fs), snd (save_records ops m' fs), m')"
    using delete_record_inside [OF inside] by (simp only: m'_def rs_def i_def)
  have m': "records m' = rs" "filepath m' = filepath m" by (simp_all add: m'_def)
  have len: "length rs + 1 = length (records m)"
    unfolding rs_def using i by (rule length_gap)
  have before: "\<forall>j < i. rs ! j = records m ! j"
  proof (intro allI impI)
    fix j assume "j < i"
    with i show "rs ! j = records m ! j"
      unfolding rs_def by (rule nth_before_gap)
  qed
  have after: "\<forall>j. i \<le> j \<and> j < length rs \<longrightarrow> rs ! j = records m ! (j + 1)"
  proof (intro allI impI)
    fix j assume j: "i \<le> j \<and> j < length rs"
    with len have "j + 1 < length (records m)" by simp
    with i j show "rs ! j = records m ! (j + 1)"
      unfolding rs_def by (simp only: nth_after_gap)
  qed
  have ok: "list_all (writable_record ops) rs \<longrightarrow>
      fst (delete_record ops index (fs, m)) = Inr () \<and>
      fst (snd (delete_record ops index (fs, m))) = fs(filepath m \<mapsto> serialize ops rs)"
    using save_records_done [of ops m' fs] by (simp add: run m')
  have cut: "\<not> list_all (writable_record ops) rs \<longrightarrow>
      fst (delete_record ops index (fs, m)) = Inl UnicodeEncodeError \<and>
      (\<exists>t. fst (snd (delete_record ops index (fs, m))) = fs(filepath m \<mapsto> t) \<and>
           prefix t (serialize ops rs) \<and> t \<noteq> serialize ops rs)"
  proof
    assume "\<not> list_all (writable_record ops) rs"
    then obtain t where "save_records ops m' fs = (Inl UnicodeEncodeError, fs(filepath m \<mapsto> t))"
      and "prefix t (serialize ops rs)" and "t \<noteq> serialize ops rs"
      using save_records_cut [of ops m' fs] by (auto simp: m')
    then show "fst (delete_record ops index (fs, m)) = Inl UnicodeEncodeError \<and>
      (\<exists>t. fst (snd (delete_record ops index (fs, m))) = fs(filepath m \<mapsto> t) \<and>
           prefix t (serialize ops rs) \<and> t \<noteq> serialize ops rs)"
      by (simp add: run) blast
  qed
  have mem: "snd (snd (delete_record ops index (fs, m))) = m\<lparr>records := rs\<rparr>"
    by (simp add: run m'_def)
  have shape: "rs = take i (records m) @ drop (i + 1) (records m)"
    by (rule rs_def)
  note summary = conjI [OF mem conjI [OF shape conjI [OF len conjI [OF before conjI [OF after
        conjI [OF serialize_lines [of ops rs] conjI [OF ok cut]]]]]]]
  show "\<exists>rs content.
          snd (snd (delete_record ops index (fs, m))) = m\<lparr>records := rs\<rparr> \<and>
          rs = take (nat index) (records m) @ drop (nat index + 1) (records m) \<and>
          length rs + 1 = length (records m) \<and>
          (\<forall>j < nat index. rs ! j = records m ! j) \<and>
          (\<forall>j. nat index \<le> j \<and> j < length rs \<longrightarrow> rs ! j = records m ! (j + 1)) \<and>
          content =
            concat (map (\<lambda>r. kv_line key_date (date r) @ newline @
                             kv_line key_category (category r) @ newline @
                             kv_line key_amount (to_str ops (amount r)) @ newline @
                             kv_line key_description (description r) @ newline @
                             dashes @ newline) rs) \<and>
          (list_all (writable_record ops) rs \<longrightarrow>
             fst (delete_record ops index (fs, m)) = Inr () \<and>
             fst (snd (delete_record ops index (fs, m))) = fs(filepath m \<mapsto> content)) \<and>
          (\<not> list_all (writable_record ops) rs \<longrightarrow>
             fst (delete_record ops index (fs, m)) = Inl UnicodeEncodeError \<and>
             (\<exists>t. fst (snd (delete_record ops index (fs, m))) = fs(filepath m \<mapsto> t) \<and>
                  prefix t content \<and> t \<noteq> content))"
    unfolding i_def [symmetric]
    by (rule exI [of _ rs], rule exI [of _ "serialize ops rs"]) (rule summary)
qed

theorem delete_record_bounds_witness:
  "delete_record whole_ops (- 1) (disk, wallet) = (Inl IndexError, disk, wallet) \<and>
   delete_record whole_ops 3 (disk, wallet) = (Inl IndexError, disk, wallet) \<and>
   delete_record whole_ops 1 (disk, wallet) =
     (Inr (), disk(asc ''wallet.txt'' \<mapsto> serialize whole_ops [ledger ! 0, ledger ! 2]),
      wallet\<lparr>records := [ledger ! 0, ledger ! 2]\<rparr>)"
proof -
  have n: "length (records wallet) = 3" "filepath wallet = asc ''wallet.txt''"
    by (simp_all add: wallet_def ledger_def)
  have out: "delete_record whole_ops (- 1) (disk, wallet) = (Inl IndexError, disk, wallet)"
    "delete_record whole_ops 3 (disk, wallet) = (Inl IndexError, disk, wallet)"
    using delete_record_bounds [of "- 1" wallet whole_ops disk]
      delete_record_bounds [of 3 wallet whole_ops disk]
    by (simp_all add: n)
  have inside: "0 \<le> (1::int) \<and> 1 < int (length (records wallet))"
    by (simp add: n)
  from delete_record_bounds [of 1 wallet whole_ops disk, THEN conjunct2, THEN mp, OF inside]
  obtain rs content where
    mem: "snd (snd (delete_record whole_ops 1 (disk, wallet))) = wallet\<lparr>records := rs\<rparr>"
    and rs: "rs = take (nat 1) (records wallet) @ drop (nat 1 + 1) (records wallet)"
    and content: "content =
            concat (map (\<lambda>r. kv_line key_date (date r) @ newline @
                             kv_line key_category (category r) @ newline @
                             kv_line key_amount (to_str whole_ops (amount r)) @ newline @
                             kv_line key_description (description r) @ newline @
                             dashes @ newline) rs)"
    and ok: "list_all (writable_record whole_ops) rs \<longrightarrow>
             fst (delete_record whole_ops 1 (disk, wallet)) = Inr () \<and>
             fst (snd (delete_record whole_ops 1 (disk, wallet))) = disk(filepath wallet \<mapsto> content)"
    by blast
  from rs have rs': "rs = [ledger ! 0, ledger ! 2]"
    by (simp add: wallet_def ledger_def)
  from content have "content = serialize whole_ops rs"
    by (simp only: serialize_lines)
  moreover have "list_all (writable_record whole_ops) rs"
    using ledger_writable by (simp add: rs' ledger_def)
  ultimately have "fst (delete_record whole_ops 1 (disk, wallet)) = Inr ()"
    "fst (snd (delete_record whole_ops 1 (disk, wallet))) =
       disk(asc ''wallet.txt'' \<mapsto> serialize whole_ops [ledger ! 0, ledger ! 2])"
    using ok by (simp_all add: n rs')
  with mem have "delete_record whole_ops 1 (disk, wallet) =
     (Inr (), disk(asc ''wallet.txt'' \<mapsto> serialize whole_ops [ledger ! 0, ledger ! 2]),
      wallet\<lparr>records := [ledger ! 0, ledger ! 2]\<rparr>)"
    by (simp add: rs' prod_eq_iff)
  with out show ?thesis by simp
qed

text \<open>
  An index inside the range on which the file is not saved: the store holds \<open>rent\<close> and a
  record whose description cannot be encoded; deleting \<open>rent\<close> raises while the file is
  rewritten, and the file is left with the first three lines of the remaining record.
\<close>

theorem delete_record_bounds_counterexample:
  "0 \<le> (0::int) \<and> 0 < int (length (records tainted_wallet)) \<and>
   delete_record whole_ops 0 (disk, tainted_wallet) =
     (Inl UnicodeEncodeError,
      disk(asc ''wallet.txt'' \<mapsto>
        kv_line key_date (asc ''2024-03-05'') @ newline @
        kv_line key_category expense_label @ newline @
        kv_line key_amount (asc ''12.0'') @ newline),
      tainted_wallet\<lparr>records := [tainted]\<rparr>)"
  by (simp add: delete_record_def save_records_def tainted_wallet_def tainted_cut)

text \<open>
  C6, as amended: with an index outside \<open>[0, length)\<close>, \<open>edit_record\<close> returns without an
  exception and leaves the list and the files as they were. With an index inside, the list in
  memory gets the new record at that position and keeps the others, and the file is then
  written again from the start: when the texts of all records of the new list can be
  encoded, the call returns and the file holds, for each record in order, its four lines and
  the delimiter line; when one cannot, the call raises \<open>UnicodeEncodeError\<close> and the file
  holds only a proper initial part of that text.
\<close>

theorem edit_record_bounds:
  "(index < 0 \<or> int (length (records m)) \<le> index \<longrightarrow>
      edit_record ops index new_record (fs, m) = (Inr (), fs, m)) \<and>
   (0 \<le> index \<and> index < int (length (records m)) \<longrightarrow>
      (\<exists>rs content.
          snd (snd (edit_record ops index new_record (fs, m))) = m\<lparr>records := rs\<rparr> \<and>
          rs = (records m)[nat index := new_record] \<and>
          length rs = length (records m) \<and>
          rs ! nat index = new_record \<and>
          (\<forall>j. j \<noteq> nat index \<longrightarrow> rs ! j = records m ! j) \<and>
          content =
            concat (map (\<lambda>r. kv_line key_date (date r) @ newline @
                             kv_line key_category (category r) @ newline @
                             kv_line key_amount (to_str ops (amount r)) @ newline @
                             kv_line key_description (description r) @ newline @
                             dashes @ newline) rs) \<and>
          (list_all (writable_record ops) rs \<longrightarrow>
             fst (edit_record ops index new_record (fs, m)) = Inr () \<and>
             fst (snd (edit_record ops index new_record (fs, m))) = fs(filepath m \<mapsto> content)) \<and>
          (\<not> list_all (writable_record ops) rs \<longrightarrow>
             fst (edit_record ops index new_record (fs, m)) = Inl UnicodeEncodeError \<and>
             (\<exists>t. fst (snd (edit_record ops index new_record (fs, m))) = fs(filepath m \<mapsto> t) \<and>
                  prefix t content \<and> t \<noteq> content))))"
proof (intro conjI impI)
  assume "index < 0 \<or> int (length (records m)) \<le> index"
  then show "edit_record ops index new_record (fs, m) = (Inr (), fs, m)"
    by (auto simp: edit_record_def)
next
  assume inside: "0 \<le> index \<and> index < int (length (records m))"
  define i where "i = nat index"
  define rs where "rs = (records m)[i := new_record]"
  define m' where "m' = m\<lparr>records := rs\<rparr>"
  from inside have i: "i < length (records m)" by (simp add: i_def nat_less_iff)
  have run: "edit_record ops index new_record (fs, m) =
      (fst (save_records ops m' fs), snd (save_records ops m' fs), m')"
    using edit_record_inside [OF inside] by (simp only: m'_def rs_def i_def)
  have m': "records m' = rs" "filepath m' = filepath m" by (simp_all add: m'_def)
  have len: "length rs = length (records m)"
    by (simp add: rs_def)
  have here: "rs ! i = new_record"
    using i by (simp add: rs_def)
  have others: "\<forall>j. j \<noteq> i \<longrightarrow> rs ! j = records m ! j"
    by (simp add: rs_def)
  have ok: "list_all (writable_record ops) rs \<longrightarrow>
      fst (edit_record ops index new_record (fs, m)) = Inr () \<and>
      fst (snd (edit_record ops index new_record (fs, m))) = fs(filepath m \<mapsto> serialize ops rs)"
    using save_records_done [of ops m' fs] by (simp add: run m')
  have cut: "\<not> list_all (writable_record ops) rs \<longrightarrow>
      fst (edit_record ops index new_record (fs, m)) = Inl UnicodeEncodeError \<and>
      (\<exists>t. fst (snd (edit_record ops index new_record (fs, m))) = fs(filepath m \<mapsto> t) \<and>
           prefix t (serialize ops rs) \<and> t \<noteq> serialize ops rs)"
  proof
    assume "\<not> list_all (writable_record ops) rs"
    then obtain t where "save_records ops m' fs = (Inl UnicodeEncodeError, fs(filepath m \<mapsto> t))"
      and "prefix t (serialize ops rs)" and "t \<noteq> serialize ops rs"
      using save_records_cut [of ops m' fs] by (auto simp: m')
    then show "fst (edit_record ops index new_record (fs, m)) = Inl UnicodeEncodeError \<and>
      (\<exists>t. fst (snd (edit_record ops index new_record (fs, m))) = fs(filepath m \<mapsto> t) \<and>
           prefix t (serialize ops rs) \<and> t \<noteq> serialize ops rs)"
      by (simp add: run) blast
  qed
  have mem: "snd (snd (edit_record ops index new_record (fs, m))) = m\<lparr>records := rs\<rparr>"
    by (simp add: run m'_def)
  have shape: "rs = (records m)[i := new_record]"
    by (rule rs_def)
  note summary = conjI [OF mem conjI [OF shape conjI [OF len conjI [OF here conjI [OF others
        conjI [OF serialize_lines [of ops rs] conjI [OF ok cut]]]]]]]
  show "\<exists>rs content.
          snd (snd (edit_record ops index new_record (fs, m))) = m\<lparr>records := rs\<rparr> \<and>
          rs = (records m)[nat index := new_record] \<and>
          length rs = length (records m) \<and>
          rs ! nat index = new_record \<and>
          (\<forall>j. j \<noteq> nat index \<longrightarrow> rs ! j = records m ! j) \<and>
          content =
            concat (map (\<lambda>r. kv_line key_date (date r) @ newline @
                             kv_line key_category (category r) @ newline @
                             kv_line key_amount (to_str ops (amount r)) @ newline @
                             kv_line key_description (description r) @ newline @
                             dashes @ newline) rs) \<and>
          (list_all (writable_record ops) rs \<longrightarrow>
             fst (edit_record ops index new_record (fs, m)) = Inr () \<and>
             fst (snd (edit_record ops index new_record (fs, m))) = fs(filepath m \<mapsto> content)) \<and>
          (\<not> list_all (writable_record ops) rs \<longrightarrow>
             fst (edit_record ops index new_record (fs, m)) = Inl UnicodeEncodeError \<and>
             (\<exists>t. fst (snd (edit_record ops index new_record (fs, m))) = fs(filepath m \<mapsto> t) \<and>
                  prefix t content \<and> t \<noteq> content))"
    unfolding i_def [symmetric]
    by (rule exI [of _ rs], rule exI [of _ "serialize ops rs"]) (rule summary)
qed

theorem edit_record_bounds_witness:
  "edit_record whole_ops (- 1) rent (disk, wallet) = (Inr (), disk, wallet) \<and>
   edit_record whole_ops 3 rent (disk, wallet) = (Inr (), disk, wallet) \<and>
   edit_record whole_ops 1 rent (disk, wallet) =
     (Inr (), disk(asc ''wallet.txt'' \<mapsto> serialize whole_ops [ledger ! 0, rent, ledger ! 2]),
      wallet\<lparr>records := [ledger ! 0, rent, ledger ! 2]\<rparr>)"
proof -
  have n: "length (records wallet) = 3" "filepath wallet = asc ''wallet.txt''"
    by (simp_all add: wallet_def ledger_def)
  have out: "edit_record whole_ops (- 1) rent (disk, wallet) = (Inr (), disk, wallet)"
    "edit_record whole_ops 3 rent (disk, wallet) = (Inr (), disk, wallet)"
    using edit_record_bounds [of "- 1" wallet whole_ops rent disk]
      edit_record_bounds [of 3 wallet whole_ops rent disk]
    by (simp_all add: n)
  have inside: "0 \<le> (1::int) \<and> 1 < int (length (records wallet))"
    by (simp add: n)
  from edit_record_bounds [of 1 wallet whole_ops rent disk, THEN conjunct2, THEN mp, OF inside]
  obtain rs content where
    mem: "snd (snd (edit_record whole_ops 1 rent (disk, wallet))) = wallet\<lparr>records := rs\<rparr>"
    and rs: "rs = (records wallet)[nat 1 := rent]"
    and content: "content =
            concat (map (\<lambda>r. kv_line key_date (date r) @ newline @
                             kv_line key_category (category r) @ newline @
                             kv_line key_amount (to_str whole_ops (amount r)) @ newline @
                             kv_line key_description (description r) @ newline @
                             dashes @ newline) rs)"
    and ok: "list_all (writable_record whole_ops) rs \<longrightarrow>
             fst (edit_record whole_ops 1 rent (disk, wallet)) = Inr () \<and>
             fst (snd (edit_record whole_ops 1 rent (disk, wallet))) = disk(filepath wallet \<mapsto> content)"
    by blast
  from rs have rs': "rs = [ledger ! 0, rent, ledger ! 2]"
    by (simp add: wallet_def ledger_def)
  from content have "content = serialize whole_ops rs"
    by (simp only: serialize_lines)
  moreover have "list_all (writable_record whole_ops) rs"
    using ledger_writable rent_writable by (simp add: rs' ledger_def)
  ultimately have "fst (edit_record whole_ops 1 rent (disk, wallet)) = Inr ()"
    "fst (snd (edit_record whole_ops 1 rent (disk, wallet))) =
       disk(asc ''wallet.txt'' \<mapsto> serialize whole_ops [ledger ! 0, rent, ledger ! 2])"
    using ok by (simp_all add: n rs')
  with mem have "edit_record whole_ops 1 rent (disk, wallet) =
     (Inr (), disk(asc ''wallet.txt'' \<mapsto> serialize whole_ops [ledger ! 0, rent, ledger ! 2]),
      wallet\<lparr>records := [ledger ! 0, rent, ledger ! 2]\<rparr>)"
    by (simp add: rs' prod_eq_iff)
  with out show ?thesis by simp
qed

text \<open>
  An index inside the range on which the file is not saved: the new record holds a
  description that cannot be encoded; the call raises while the file is rewritten, and the
  file is left with the first three lines of the new record and nothing of the two other
  records of the store, which stood in the file before.
\<close>

theorem edit_record_bounds_counterexample:
  "0 \<le> (0::int) \<and> 0 < int (length (records wallet)) \<and>
   edit_record whole_ops 0 tainted (disk, wallet) =
     (Inl UnicodeEncodeError,
      disk(asc ''wallet.txt'' \<mapsto>
        kv_line key_date (asc ''2024-03-05'') @ newline @
        kv_line key_category expense_label @ newline @
        kv_line key_amount (asc ''12.0'') @ newline),
      wallet\<lparr>records := [tainted, ledger ! 1, ledger ! 2]\<rparr>)"
  by (simp add: edit_record_def save_records_def wallet_def ledger_def write_all_append tainted_cut)

end
